theory Spec2Isabelle
  imports Main "HOL-Library.Sublist"
begin

section \<open>Client page loader: routes and asset paths\<close>

text \<open>
  The embedding follows \<^verbatim>\<open>packages/next/client/page-loader.js\<close>. A JavaScript string
  is a \<^typ>\<open>string\<close> (code units below 256); a thrown \<^verbatim>\<open>Error\<close> is a value of type
  \<open>error\<close> and a function that may throw returns \<open>error + 'a\<close>, with \<open>Inl\<close> for the
  thrown error.
\<close>

datatype error =
    RouteError string      \<comment> \<open>\<^verbatim>\<open>Route name should start with a "/", got "${route}"\<close>\<close>
  | PageLoadError string   \<comment> \<open>\<^verbatim>\<open>pageLoadError(route)\<close>, code \<^verbatim>\<open>PAGE_LOAD_ERROR\<close>\<close>
  | Thrown string          \<comment> \<open>a truthy value thrown by a page's registration function\<close>
  | ThrownFalsy string     \<comment> \<open>a falsy value thrown by it: \<^verbatim>\<open>''\<close>, \<^verbatim>\<open>0\<close>, \<^verbatim>\<open>null\<close>, \<^verbatim>\<open>undefined\<close>\<close>
  | TypeError string       \<comment> \<open>a property read on \<^verbatim>\<open>undefined\<close>\<close>

definition pageLoadError :: "string \<Rightarrow> error" where
  "pageLoadError route = PageLoadError route"

text \<open>The truth value of a thrown value in a condition: \<^verbatim>\<open>Error\<close> objects are truthy.\<close>

definition truthy :: "error \<Rightarrow> bool" where
  "truthy e = (case e of ThrownFalsy v \<Rightarrow> False | _ \<Rightarrow> True)"

text \<open>\<^verbatim>\<open>route.replace(/\/$/, '')\<close>: one slash at the very end of the string is removed.\<close>

definition stripTrailingSlash :: "string \<Rightarrow> string" where
  "stripTrailingSlash route =
     (if route \<noteq> [] \<and> last route = CHR ''/'' then butlast route else route)"

text \<open>\<^verbatim>\<open>route[0]\<close> of the empty string is \<^verbatim>\<open>undefined\<close>, which differs from \<^verbatim>\<open>'/'\<close>.\<close>

definition normalizeRoute :: "string \<Rightarrow> error + string" where
  "normalizeRoute route =
     (case route of
        [] \<Rightarrow> Inl (RouteError route)
      | c # _ \<Rightarrow>
          if c \<noteq> CHR ''/'' then Inl (RouteError route)
          else if route = ''/'' then Inr route
          else Inr (stripTrailingSlash route))"

text \<open>Normalising the result of a normalisation; a throw of the first call propagates.\<close>

definition normalizeTwice :: "string \<Rightarrow> error + string" where
  "normalizeTwice route =
     (case normalizeRoute route of Inl e \<Rightarrow> Inl e | Inr r \<Rightarrow> normalizeRoute r)"

text \<open>\<^verbatim>\<open>/^\/index(\/|$)/.test(route)\<close>\<close>

definition indexRouteTest :: "string \<Rightarrow> bool" where
  "indexRouteTest route =
     (take 6 route = ''/index'' \<and>
      (case drop 6 route of [] \<Rightarrow> True | c # _ \<Rightarrow> c = CHR ''/''))"

definition getAssetPath :: "string \<Rightarrow> string" where
  "getAssetPath route =
     (if route = ''/'' then ''/index''
      else if indexRouteTest route then ''/index'' @ route
      else route)"

subsection \<open>The built-in URI encoders\<close>

text \<open>
  \<^verbatim>\<open>encodeURIComponent\<close> and \<^verbatim>\<open>encodeURI\<close> of ECMAScript, on code units below 256: a
  character outside the unescaped set becomes the percent-escapes of its UTF-8 bytes
  (one byte below 128, two from 128 on).
\<close>

definition hexDigit :: "nat \<Rightarrow> char" where
  "hexDigit n = ''0123456789ABCDEF'' ! (n mod 16)"

definition percentByte :: "nat \<Rightarrow> string" where
  "percentByte b = [CHR ''%'', hexDigit (b div 16), hexDigit b]"

definition utf8Escape :: "char \<Rightarrow> string" where
  "utf8Escape c =
     (let n = (of_char c :: nat)
      in if n < 128 then percentByte n
         else percentByte (192 + n div 64) @ percentByte (128 + n mod 64))"

definition uriUnescaped :: "char \<Rightarrow> bool" where
  "uriUnescaped c =
     (c \<in> set ''abcdefghijklmnopqrstuvwxyzABCDEFGHIJKLMNOPQRSTUVWXYZ0123456789-_.!~*()''
      \<or> c = CHR 0x27)"

definition uriReserved :: "char \<Rightarrow> bool" where
  "uriReserved c = (c \<in> set '';/?:@&=+$,#'')"

definition encodeURIComponent :: "string \<Rightarrow> string" where
  "encodeURIComponent s = concat (map (\<lambda>c. if uriUnescaped c then [c] else utf8Escape c) s)"

definition encodeURI :: "string \<Rightarrow> string" where
  "encodeURI s =
     concat (map (\<lambda>c. if uriUnescaped c \<or> uriReserved c then [c] else utf8Escape c) s)"

text \<open>\<^verbatim>\<open>s.endsWith(t)\<close>, and the attribute selector \<^verbatim>\<open>[attr^="v"]\<close>, which matches nothing
  for the empty \<^verbatim>\<open>v\<close>.\<close>

definition endsWith :: "string \<Rightarrow> string \<Rightarrow> bool" where
  "endsWith s t = (length t \<le> length s \<and> drop (length s - length t) s = t)"

definition attrStartsWith :: "string \<Rightarrow> string \<Rightarrow> bool" where
  "attrStartsWith v a = (v \<noteq> [] \<and> take (length v) a = v)"


section \<open>The loader's state\<close>

text \<open>
  A page module as the registration function returns it, the page taken from it by
  \<^verbatim>\<open>mod.default || mod\<close>, and a cache entry or event payload: \<^verbatim>\<open>{ error }\<close> or
  \<^verbatim>\<open>{ page, mod }\<close>. The error of a cache entry is whatever the registration function
  threw, truthy or not.
\<close>

record pageModule =
  moduleId :: string
  defaultExport :: "string option"

datatype page = DefaultExport string | WholeModule pageModule

definition pageOf :: "pageModule \<Rightarrow> page" where
  "pageOf m = (case defaultExport m of Some d \<Rightarrow> DefaultExport d | None \<Rightarrow> WholeModule m)"

datatype pageData = Failed error | Loaded page pageModule

text \<open>
  The state of a promise returned by \<^verbatim>\<open>loadPage\<close>; promises are numbered as created.
  \<open>ResolvedUndefined\<close> is \<^verbatim>\<open>resolve({ page: undefined, mod: undefined })\<close>.
\<close>

datatype outcome = Pending | Resolved page pageModule | ResolvedUndefined | Rejected error

text \<open>
  \<^verbatim>\<open>error ? reject(error) : resolve({ page, mod })\<close> on the fields of an entry or event, in
  \<^verbatim>\<open>loadPage\<close> and in \<^verbatim>\<open>fire\<close>: the test is the truth value of \<^verbatim>\<open>error\<close>, so an entry
  \<^verbatim>\<open>{ error }\<close> with a falsy error resolves, with no page and no module.
\<close>

definition outcomeOf :: "pageData \<Rightarrow> outcome" where
  "outcomeOf d =
     (case d of
        Failed e \<Rightarrow> if truthy e then Rejected e else ResolvedUndefined
      | Loaded pg m \<Rightarrow> Resolved pg m)"

text \<open>
  A listener is the closure \<^verbatim>\<open>fire\<close> of one \<^verbatim>\<open>loadPage\<close> call: the promise it settles and
  the value its captured variable \<^verbatim>\<open>route\<close> has once the call has returned.
\<close>

datatype handler = Fire (firePromise: nat) (fireRoute: string)

text \<open>
  Elements of the document: a script with the route of its \<^verbatim>\<open>onerror\<close> handler (none for
  a script the loader did not inject), and a link.
\<close>

datatype script = Script (scriptSrc: string) (scriptRoute: "string option") (scriptModule: bool)

datatype link = Link (linkHref: string) (linkRel: string) (linkAs: "string option")

text \<open>A \<^verbatim>\<open>then\<close> callback waiting for the build manifest, from \<^verbatim>\<open>loadPage\<close> or \<^verbatim>\<open>prefetch\<close>.\<close>

datatype task = LoadDeps string | PrefetchDeps string

record loader =
  pageCache :: "string \<rightharpoonup> pageData"
  pageRegisterEvents :: "string \<Rightarrow> handler list"
  loadingRoutes :: "string set"
  promises :: "outcome list"
  scripts :: "script list"
  links :: "link list"
  manifestWaiters :: "task list"
  hotStatus :: "string option"
  hotHandlers :: "(string \<times> (error + pageModule)) list"

text \<open>
  What the loader is constructed with and the environment it reads: the build flags of
  \<^verbatim>\<open>process.env\<close>, the feature tests made when the file is loaded, \<^verbatim>\<open>navigator.connection\<close>
  and the two manifests.
\<close>

record connection =
  saveData :: bool
  effectiveType :: string

record config =
  buildId :: string
  assetPrefix :: string
  production :: bool
  modernBuild :: bool
  hasNoModule :: bool
  hasRelPreload :: bool
  hasRelPrefetch :: bool
  navigatorConnection :: "connection option"
  buildManifest :: "string \<rightharpoonup> string list"
  ssgManifest :: "string set"

definition relPrefetch :: "config \<Rightarrow> string" where
  "relPrefetch cfg = (if hasRelPreload cfg \<and> \<not> hasRelPrefetch cfg then ''preload'' else ''prefetch'')"

text \<open>The constructor; \<open>doc\<close> and \<open>lnk\<close> are the scripts and links of the initial document.\<close>

definition newPageLoader :: "string \<Rightarrow> script list \<Rightarrow> link list \<Rightarrow> string option \<Rightarrow> loader" where
  "newPageLoader initialPage doc lnk hot =
     \<lparr> pageCache = Map.empty,
       pageRegisterEvents = (\<lambda>_. []),
       loadingRoutes = (if initialPage \<noteq> ''/_error'' then {''/_app'', initialPage} else {''/_app''}),
       promises = [],
       scripts = doc,
       links = lnk,
       manifestWaiters = [],
       hotStatus = hot,
       hotHandlers = [] \<rparr>"

subsection \<open>Promises and the event emitter\<close>

text \<open>\<^verbatim>\<open>resolve\<close> and \<^verbatim>\<open>reject\<close>: only the first call on a promise settles it.\<close>

definition settle :: "nat \<Rightarrow> outcome \<Rightarrow> outcome list \<Rightarrow> outcome list" where
  "settle p out ps = (if p < length ps \<and> ps ! p = Pending then ps[p := out] else ps)"

text \<open>
  Modelled from the spec: the emitter \<^verbatim>\<open>mitt\<close> of \<^verbatim>\<open>next-server/lib/mitt\<close>, which is not
  among the sources. It is the publish/subscribe mechanism keyed by route of the spec's
  registry: \<open>on\<close> appends a listener to the route's list, \<open>off\<close> removes one occurrence of
  it, and \<open>emit\<close> calls every listener subscribed when the broadcast starts, in order, and
  returns nothing.
\<close>

definition on :: "string \<Rightarrow> handler \<Rightarrow> loader \<Rightarrow> loader" where
  "on route h s =
     s\<lparr>pageRegisterEvents := (pageRegisterEvents s)(route := pageRegisterEvents s route @ [h])\<rparr>"

definition off :: "string \<Rightarrow> handler \<Rightarrow> loader \<Rightarrow> loader" where
  "off route h s =
     s\<lparr>pageRegisterEvents := (pageRegisterEvents s)(route := remove1 h (pageRegisterEvents s route))\<rparr>"

text \<open>The body of \<^verbatim>\<open>fire\<close> in \<^verbatim>\<open>loadPage\<close>.\<close>

definition fire :: "handler \<Rightarrow> pageData \<Rightarrow> loader \<Rightarrow> loader" where
  "fire h ev s =
     (let s1 = off (fireRoute h) h s;
          s2 = s1\<lparr>loadingRoutes := loadingRoutes s1 - {fireRoute h}\<rparr>
      in s2\<lparr>promises := settle (firePromise h) (outcomeOf ev) (promises s2)\<rparr>)"

definition emit :: "string \<Rightarrow> pageData \<Rightarrow> loader \<Rightarrow> loader" where
  "emit route ev s = foldl (\<lambda>s' h. fire h ev s') s (pageRegisterEvents s route)"

subsection \<open>Scripts, links and dependencies\<close>

definition loadScript :: "config \<Rightarrow> string \<Rightarrow> string \<Rightarrow> loader \<Rightarrow> loader" where
  "loadScript cfg url route s =
     s\<lparr>scripts := scripts s @ [Script url (Some route) (modernBuild cfg \<and> hasNoModule cfg)]\<rparr>"

definition appendLink :: "string \<Rightarrow> string \<Rightarrow> string option \<Rightarrow> loader \<Rightarrow> loader" where
  "appendLink url r a s = s\<lparr>links := links s @ [Link url r a]\<rparr>"

text \<open>The \<^verbatim>\<open>onerror\<close> handler of the \<open>i\<close>-th script of the document, if it has one.\<close>

definition scriptError :: "nat \<Rightarrow> loader \<Rightarrow> loader" where
  "scriptError i s =
     (if i < length (scripts s) then
        (case scriptRoute (scripts s ! i) of
           None \<Rightarrow> s
         | Some route \<Rightarrow> emit route (Failed (pageLoadError (scriptSrc (scripts s ! i)))) s)
      else s)"

text \<open>
  \<^verbatim>\<open>getDependencies\<close>, from the build manifest's arrival on. The constructor creates
  \<^verbatim>\<open>promisedBuildManifest\<close> in production only, so elsewhere the call throws on the
  undefined property. In production the promise resolves with what the callback
  returns: the route's URLs, or for a route without an entry the value of
  \<^verbatim>\<open>emit(route, { error }) ?? []\<close>, after the listeners have run.
\<close>

definition getDependencies ::
  "config \<Rightarrow> string \<Rightarrow> loader \<Rightarrow> error + string list \<times> loader" where
  "getDependencies cfg route s =
     (if \<not> production cfg then Inl (TypeError ''promisedBuildManifest'')
      else
        (case buildManifest cfg route of
           Some urls \<Rightarrow> Inr (map (\<lambda>url. assetPrefix cfg @ ''/_next/'' @ encodeURI url) urls, s)
         | None \<Rightarrow> Inr ([], emit route (Failed (pageLoadError route)) s)))"

text \<open>The body of \<^verbatim>\<open>deps.forEach\<close> in \<^verbatim>\<open>loadPage\<close>.\<close>

definition injectDependency :: "config \<Rightarrow> string \<Rightarrow> loader \<Rightarrow> string \<Rightarrow> loader" where
  "injectDependency cfg route s d =
     (let s1 = (if endsWith d ''.js'' \<and>
                   \<not> list_ex (\<lambda>sc. attrStartsWith d (scriptSrc sc)) (scripts s)
                then loadScript cfg d route s else s)
      in if endsWith d ''.css'' \<and>
            \<not> list_ex (\<lambda>l. linkRel l = ''stylesheet'' \<and> attrStartsWith d (linkHref l)) (links s1)
         then appendLink d ''stylesheet'' None s1 else s1)"

definition loadDependencies :: "config \<Rightarrow> string \<Rightarrow> loader \<Rightarrow> loader" where
  "loadDependencies cfg route s =
     (case getDependencies cfg route s of
        Inl e \<Rightarrow> s
      | Inr (deps, s') \<Rightarrow> foldl (injectDependency cfg route) s' deps)"

subsection \<open>Loading and registering a page\<close>

text \<open>
  \<^verbatim>\<open>loadPage\<close> throws when the route is invalid; otherwise it returns a new promise, here
  its number, and the executor has run. In development the executor assigns
  \<^verbatim>\<open>route = normalizeRoute(route)\<close> again after subscribing; a throw there would reject the
  promise.
\<close>

definition loadPage :: "config \<Rightarrow> string \<Rightarrow> loader \<Rightarrow> error + nat \<times> loader" where
  "loadPage cfg route0 s =
     (case normalizeRoute route0 of
        Inl e \<Rightarrow> Inl e
      | Inr route \<Rightarrow>
          let p = length (promises s);
              s0 = s\<lparr>promises := promises s @ [Pending]\<rparr>
          in case pageCache s route of
               Some cachedPage \<Rightarrow>
                 Inr (p, s0\<lparr>promises := settle p (outcomeOf cachedPage) (promises s0)\<rparr>)
             | None \<Rightarrow>
                 if route \<in> loadingRoutes s then Inr (p, on route (Fire p route) s0)
                 else
                   let s1 = s0\<lparr>loadingRoutes := insert route (loadingRoutes s0)\<rparr>
                   in if production cfg then
                        Inr (p, (on route (Fire p route) s1)
                                  \<lparr>manifestWaiters := manifestWaiters s1 @ [LoadDeps route]\<rparr>)
                      else
                        (case normalizeRoute route of
                           Inl e \<Rightarrow>
                             let s2 = on route (Fire p route) s1
                             in Inr (p, s2\<lparr>promises := settle p (Rejected e) (promises s2)\<rparr>)
                         | Inr route' \<Rightarrow>
                             Inr (p, loadScript cfg
                                       (assetPrefix cfg @ ''/_next/static/pages'' @
                                          encodeURI (getAssetPath route') @ ''.js'')
                                       route' (on route (Fire p route') s1))))"

text \<open>
  The inner function \<^verbatim>\<open>register\<close>; \<open>res\<close> is what the \<^verbatim>\<open>try\<close> block does up to the entry,
  a module or a throw (of \<^verbatim>\<open>regFn\<close>, or the type error of \<^verbatim>\<open>mod.default\<close> when \<^verbatim>\<open>regFn\<close>
  returns no object), and \<open>pageDataOf res\<close> the entry built from it in the \<^verbatim>\<open>try\<close> or the
  \<^verbatim>\<open>catch\<close>.
\<close>

definition pageDataOf :: "error + pageModule \<Rightarrow> pageData" where
  "pageDataOf res = (case res of Inr m \<Rightarrow> Loaded (pageOf m) m | Inl e \<Rightarrow> Failed e)"

definition register :: "string \<Rightarrow> error + pageModule \<Rightarrow> loader \<Rightarrow> loader" where
  "register route res s =
     (let pageData = pageDataOf res
      in emit route pageData (s\<lparr>pageCache := (pageCache s)(route \<mapsto> pageData)\<rparr>))"

text \<open>
  \<^verbatim>\<open>registerPage\<close>: outside production, with hot reloading present and not idle, a status
  handler is installed instead and \<^verbatim>\<open>register\<close> waits.
\<close>

definition registerPage :: "config \<Rightarrow> string \<Rightarrow> error + pageModule \<Rightarrow> loader \<Rightarrow> loader" where
  "registerPage cfg route res s =
     (if \<not> production cfg \<and> hotStatus s \<noteq> None \<and> hotStatus s \<noteq> Some ''idle''
      then s\<lparr>hotHandlers := hotHandlers s @ [(route, res)]\<rparr>
      else register route res s)"

text \<open>The status handler \<^verbatim>\<open>check\<close> number \<open>i\<close>, called with a status.\<close>

definition hotCheck :: "nat \<Rightarrow> string \<Rightarrow> loader \<Rightarrow> loader" where
  "hotCheck i status s =
     (if i < length (hotHandlers s) \<and> status = ''idle''
      then (case hotHandlers s ! i of
              (route, res) \<Rightarrow>
                register route res
                  (s\<lparr>hotHandlers := take i (hotHandlers s) @ drop (Suc i) (hotHandlers s)\<rparr>))
      else s)"

subsection \<open>Prefetching\<close>

text \<open>\<^verbatim>\<open>/2g/.test(cn.effectiveType)\<close>\<close>

fun contains2g :: "string \<Rightarrow> bool" where
  "contains2g (a # b # r) = ((a = CHR ''2'' \<and> b = CHR ''g'') \<or> contains2g (b # r))"
| "contains2g _ = False"

definition networkSkips :: "config \<Rightarrow> bool" where
  "networkSkips cfg =
     (case navigatorConnection cfg of
        None \<Rightarrow> False
      | Some cn \<Rightarrow> saveData cn \<or> contains2g (effectiveType cn))"

definition prefetchUrl :: "config \<Rightarrow> string \<Rightarrow> string" where
  "prefetchUrl cfg route =
     assetPrefix cfg @ ''/_next/static/'' @ encodeURIComponent (buildId cfg) @ ''/pages'' @
     encodeURI (getAssetPath route) @
     (if modernBuild cfg \<and> hasNoModule cfg then ''.module.js'' else ''.js'')"

text \<open>
  The variable \<^verbatim>\<open>url\<close> of \<^verbatim>\<open>prefetch\<close>, which stays \<^verbatim>\<open>undefined\<close> (\<open>None\<close>) for a page in
  production; \<^verbatim>\<open>normalizeRoute\<close> may throw.
\<close>

definition prefetchTarget :: "config \<Rightarrow> string \<Rightarrow> bool \<Rightarrow> error + string option" where
  "prefetchTarget cfg route isDependency =
     (if isDependency then Inr (Some route)
      else if \<not> production cfg then
        (case normalizeRoute route of
           Inl e \<Rightarrow> Inl e
         | Inr route' \<Rightarrow> Inr (Some (prefetchUrl cfg route')))
      else Inr None)"

text \<open>
  \<^verbatim>\<open>prefetch\<close>, up to the point where it returns its promise: the link it appends and the
  dependency walk it leaves waiting for the build manifest. An undefined \<^verbatim>\<open>url\<close> is
  spliced into the selector as the text \<^verbatim>\<open>undefined\<close>.
\<close>

definition prefetch :: "config \<Rightarrow> string \<Rightarrow> bool \<Rightarrow> loader \<Rightarrow> error + loader" where
  "prefetch cfg route isDependency s =
     (if networkSkips cfg then Inr s
      else
        (case prefetchTarget cfg route isDependency of
           Inl e \<Rightarrow> Inl e
         | Inr url \<Rightarrow>
             if list_ex (\<lambda>l. linkRel l = relPrefetch cfg \<and>
                    attrStartsWith (case url of None \<Rightarrow> ''undefined'' | Some u \<Rightarrow> u) (linkHref l))
                  (links s)
             then Inr s
             else
               let s1 = (case url of
                           None \<Rightarrow> s
                         | Some u \<Rightarrow>
                             if u = [] then s
                             else appendLink u (relPrefetch cfg)
                                    (Some (if endsWith u ''.css'' then ''style'' else ''script'')) s)
               in Inr (if production cfg \<and> \<not> isDependency
                       then s1\<lparr>manifestWaiters := manifestWaiters s1 @ [PrefetchDeps route]\<rparr>
                       else s1)))"

text \<open>\<^verbatim>\<open>urls.map((dependencyUrl) => this.prefetch(dependencyUrl, true))\<close>; a throw ends the walk.\<close>

fun prefetchEach :: "config \<Rightarrow> string list \<Rightarrow> loader \<Rightarrow> loader" where
  "prefetchEach cfg [] s = s"
| "prefetchEach cfg (u # us) s =
     (case prefetch cfg u True s of Inl e \<Rightarrow> s | Inr s' \<Rightarrow> prefetchEach cfg us s')"

definition prefetchDependencies :: "config \<Rightarrow> string \<Rightarrow> loader \<Rightarrow> loader" where
  "prefetchDependencies cfg route s =
     (case getDependencies cfg route s of
        Inl e \<Rightarrow> s
      | Inr (urls, s') \<Rightarrow> prefetchEach cfg urls s')"

text \<open>The build manifest resolves for the callback that has waited longest.\<close>

definition manifestReady :: "config \<Rightarrow> loader \<Rightarrow> loader" where
  "manifestReady cfg s =
     (case manifestWaiters s of
        [] \<Rightarrow> s
      | t # ts \<Rightarrow>
          (case t of
             LoadDeps route \<Rightarrow> loadDependencies cfg route (s\<lparr>manifestWaiters := ts\<rparr>)
           | PrefetchDeps route \<Rightarrow> prefetchDependencies cfg route (s\<lparr>manifestWaiters := ts\<rparr>)))"

subsection \<open>Data URLs of dynamic routes\<close>

text \<open>
  The router utilities \<^verbatim>\<open>isDynamicRoute\<close>, \<^verbatim>\<open>getRouteRegex\<close> (its \<^verbatim>\<open>groups\<close>, in key order)
  and \<^verbatim>\<open>getRouteMatcher\<close> are imported from files that are not among the sources, and
  \<^verbatim>\<open>parse\<close> is the \<^verbatim>\<open>url\<close> library's: the utilities are parameters of the model, and
  \<open>getDataHref\<close> takes the parsed path names and the parsed query. A parameter value is
  a string or an array of strings.
\<close>

datatype paramValue = Single string | Multiple "string list"

record routeGroup =
  groupRepeat :: bool
  groupOptional :: bool

record routerUtils =
  isDynamicRoute :: "string \<Rightarrow> bool"
  routeGroups :: "string \<Rightarrow> (string \<times> routeGroup) list"
  routeMatcher :: "string \<Rightarrow> string \<Rightarrow> (string \<rightharpoonup> paramValue) option"

text \<open>\<^verbatim>\<open>xs.join(sep)\<close>\<close>

fun joinWith :: "string \<Rightarrow> string list \<Rightarrow> string" where
  "joinWith sep [] = []"
| "joinWith sep [x] = x"
| "joinWith sep (x # y # ys) = x @ sep @ joinWith sep (y # ys)"

text \<open>
  \<^verbatim>\<open>s.replace(pat, rep)\<close> for a string pattern: the first occurrence only. The replacement
  never holds a dollar sign, which \<^verbatim>\<open>encodeURIComponent\<close> escapes.
\<close>

fun replaceFirst :: "string \<Rightarrow> string \<Rightarrow> string \<Rightarrow> string" where
  "replaceFirst pat rep [] = (if pat = [] then rep else [])"
| "replaceFirst pat rep (c # cs) =
     (if take (length pat) (c # cs) = pat then rep @ drop (length pat) (c # cs)
      else c # replaceFirst pat rep cs)"

text \<open>\<^verbatim>\<open>Array.isArray(value) ? value : [value]\<close>, and \<^verbatim>\<open>String(value)\<close>.\<close>

definition asArray :: "paramValue \<Rightarrow> string list" where
  "asArray v = (case v of Single x \<Rightarrow> [x] | Multiple xs \<Rightarrow> xs)"

definition asString :: "paramValue \<Rightarrow> string" where
  "asString v = (case v of Single x \<Rightarrow> x | Multiple xs \<Rightarrow> joinWith '','' xs)"

definition replacedText :: "string \<Rightarrow> routeGroup \<Rightarrow> string" where
  "replacedText param g =
     (let replaced = ''['' @ (if groupRepeat g then ''...'' else []) @ param @ '']''
      in if groupOptional g then ''['' @ replaced @ '']'' else replaced)"

definition paramText :: "routeGroup \<Rightarrow> paramValue \<Rightarrow> string" where
  "paramText g v =
     (if groupRepeat g then joinWith ''/'' (map encodeURIComponent (asArray v))
      else encodeURIComponent (asString v))"

text \<open>
  The callback of \<^verbatim>\<open>Object.keys(dynamicGroups).every\<close>: its truth value and the new value
  of \<^verbatim>\<open>interpolatedRoute\<close>.
\<close>

definition interpolateParam ::
  "(string \<rightharpoonup> paramValue) \<Rightarrow> string \<Rightarrow> string \<times> routeGroup \<Rightarrow> bool \<times> string" where
  "interpolateParam dynamicMatches interpolatedRoute pg =
     (case pg of (param, g) \<Rightarrow>
        (case dynamicMatches param of
           None \<Rightarrow> (False, interpolatedRoute)
         | Some v \<Rightarrow>
             let r = replaceFirst (replacedText param g) (paramText g v) interpolatedRoute
             in (r \<noteq> [], r)))"

fun everyParam ::
  "(string \<rightharpoonup> paramValue) \<Rightarrow> string \<Rightarrow> (string \<times> routeGroup) list \<Rightarrow> bool \<times> string" where
  "everyParam dynamicMatches interpolatedRoute [] = (True, interpolatedRoute)"
| "everyParam dynamicMatches interpolatedRoute (pg # pgs) =
     (case interpolateParam dynamicMatches interpolatedRoute pg of
        (ok, r) \<Rightarrow> if ok then everyParam dynamicMatches r pgs else (False, r))"

definition dynamicMatchesOf ::
  "routerUtils \<Rightarrow> string \<Rightarrow> (string \<rightharpoonup> paramValue) \<Rightarrow> string \<Rightarrow> (string \<rightharpoonup> paramValue)" where
  "dynamicMatchesOf utils route query asPathname =
     (case routeMatcher utils route asPathname of Some m \<Rightarrow> m | None \<Rightarrow> query)"

text \<open>The final value of \<^verbatim>\<open>interpolatedRoute\<close> for a dynamic route.\<close>

definition interpolateRoute ::
  "routerUtils \<Rightarrow> string \<Rightarrow> (string \<rightharpoonup> paramValue) \<Rightarrow> string \<Rightarrow> string" where
  "interpolateRoute utils route query asPathname =
     (case everyParam (dynamicMatchesOf utils route query asPathname) route
             (routeGroups utils route) of
        (ok, r) \<Rightarrow> if ok then r else [])"

definition getHrefForSlug :: "config \<Rightarrow> string \<Rightarrow> string" where
  "getHrefForSlug cfg path =
     assetPrefix cfg @ ''/_next/data/'' @ buildId cfg @ getAssetPath path @ ''.json''"

definition getDataHref ::
  "config \<Rightarrow> routerUtils \<Rightarrow> string \<Rightarrow> (string \<rightharpoonup> paramValue) \<Rightarrow> string \<Rightarrow> error + string" where
  "getDataHref cfg utils hrefPathname query asPathname =
     (case normalizeRoute hrefPathname of
        Inl e \<Rightarrow> Inl e
      | Inr route \<Rightarrow>
          if isDynamicRoute utils route then
            (let interpolatedRoute = interpolateRoute utils route query asPathname
             in Inr (if interpolatedRoute = [] then [] else getHrefForSlug cfg interpolatedRoute))
          else Inr (getHrefForSlug cfg route))"

text \<open>
  \<^verbatim>\<open>prefetchData\<close> with its callback on the SSG manifest: a falsy data URL, a route outside
  the manifest and an existing link each leave the document as it is.
\<close>

definition prefetchData ::
  "config \<Rightarrow> routerUtils \<Rightarrow> string \<Rightarrow> (string \<rightharpoonup> paramValue) \<Rightarrow> string \<Rightarrow> loader
     \<Rightarrow> error + loader" where
  "prefetchData cfg utils hrefPathname query asPathname s =
     (case normalizeRoute hrefPathname of
        Inl e \<Rightarrow> Inl e
      | Inr route \<Rightarrow>
          if route \<in> ssgManifest cfg then
            (case getDataHref cfg utils hrefPathname query asPathname of
               Inl e \<Rightarrow> Inr s
             | Inr dataHref \<Rightarrow>
                 if dataHref \<noteq> [] \<and>
                    \<not> list_ex (\<lambda>l. linkRel l = relPrefetch cfg \<and>
                                  attrStartsWith dataHref (linkHref l)) (links s)
                 then Inr (appendLink dataHref (relPrefetch cfg) (Some ''fetch'') s)
                 else Inr s)
          else Inr s)"

subsection \<open>The dynamic-route utilities as the specification describes them\<close>

text \<open>\<^verbatim>\<open>s.split('/')\<close>\<close>

fun splitSlash :: "string \<Rightarrow> string list" where
  "splitSlash [] = [[]]"
| "splitSlash (c # cs) =
     (if c = CHR ''/'' then [] # splitSlash cs
      else (case splitSlash cs of [] \<Rightarrow> [[c]] | seg # segs \<Rightarrow> (c # seg) # segs))"

text \<open>
  Modelled from the spec: the parameter group of one segment of a route pattern, absent
  from the sources (\<^verbatim>\<open>router/utils/route-regex\<close>). The spec's groups map a parameter name
  to \<^verbatim>\<open>{repeat, optional}\<close>: \<^verbatim>\<open>[name]\<close> is a single parameter, \<^verbatim>\<open>[...name]\<close> a repeated
  (catch-all) one, \<^verbatim>\<open>[[...name]]\<close> a repeated optional one.
\<close>

definition segmentGroup :: "string \<Rightarrow> (string \<times> routeGroup) option" where
  "segmentGroup seg =
     (if take 5 seg = ''[[...'' \<and> endsWith seg '']]'' \<and> 7 < length seg then
        Some (take (length seg - 7) (drop 5 seg), \<lparr>groupRepeat = True, groupOptional = True\<rparr>)
      else if take 4 seg = ''[...'' \<and> endsWith seg '']'' \<and> 5 < length seg then
        Some (take (length seg - 5) (drop 4 seg), \<lparr>groupRepeat = True, groupOptional = False\<rparr>)
      else if take 1 seg = ''['' \<and> endsWith seg '']'' \<and> 2 < length seg then
        Some (take (length seg - 2) (drop 1 seg), \<lparr>groupRepeat = False, groupOptional = False\<rparr>)
      else None)"

text \<open>
  Modelled from the spec: \<^verbatim>\<open>isDynamicRoute\<close> and the groups of \<^verbatim>\<open>getRouteRegex\<close>, absent
  from the sources: a route is dynamic when it has a parameter segment.
\<close>

definition specIsDynamicRoute :: "string \<Rightarrow> bool" where
  "specIsDynamicRoute route = list_ex (\<lambda>seg. segmentGroup seg \<noteq> None) (splitSlash route)"

definition specRouteGroups :: "string \<Rightarrow> (string \<times> routeGroup) list" where
  "specRouteGroups route = List.map_filter segmentGroup (splitSlash route)"

text \<open>
  Modelled from the spec: the matcher of \<^verbatim>\<open>getRouteMatcher\<close>, absent from the sources.
  "Given a route pattern with parameter segments, extracts parameter values from a
  concrete path": literal segments must agree, a single parameter takes one nonempty
  segment, a repeated parameter takes the remaining segments.
\<close>

fun matchSegments :: "string list \<Rightarrow> string list \<Rightarrow> (string \<times> paramValue) list option" where
  "matchSegments [] path = (if path = [] then Some [] else None)"
| "matchSegments (p # ps) path =
     (case segmentGroup p of
        None \<Rightarrow>
          (case path of
             [] \<Rightarrow> None
           | x # xs \<Rightarrow> if x = p then matchSegments ps xs else None)
      | Some (name, g) \<Rightarrow>
          if groupRepeat g then
            (if ps \<noteq> [] then None
             else if path = [] then (if groupOptional g then Some [] else None)
             else if list_ex (\<lambda>x. x = []) path then None
             else Some [(name, Multiple path)])
          else
            (case path of
               [] \<Rightarrow> None
             | x # xs \<Rightarrow>
                 if x = [] then None
                 else map_option (\<lambda>r. (name, Single x) # r) (matchSegments ps xs)))"

definition specRouteMatcher :: "string \<Rightarrow> string \<Rightarrow> (string \<rightharpoonup> paramValue) option" where
  "specRouteMatcher route asPathname =
     map_option map_of (matchSegments (splitSlash route) (splitSlash asPathname))"

definition specUtils :: routerUtils where
  "specUtils =
     \<lparr> isDynamicRoute = specIsDynamicRoute,
       routeGroups = specRouteGroups,
       routeMatcher = specRouteMatcher \<rparr>"

subsection \<open>Runs of the loader\<close>

text \<open>
  What can happen to a loader, one event at a time: calls of its methods, the \<^verbatim>\<open>onerror\<close>
  event of a script, the build manifest resolving for a waiting callback, and the hot
  reloading status. A call that throws leaves the state as it was.
\<close>

datatype op =
    LoadPage string
  | RegisterPage string "error + pageModule"
  | ScriptError nat
  | ManifestReady
  | HotStatus string
  | HotCheck nat string
  | Prefetch string bool
  | PrefetchData string "string \<rightharpoonup> paramValue" string

definition step :: "config \<Rightarrow> routerUtils \<Rightarrow> loader \<Rightarrow> op \<Rightarrow> loader" where
  "step cfg utils s ev =
     (case ev of
        LoadPage route \<Rightarrow> (case loadPage cfg route s of Inl e \<Rightarrow> s | Inr (p, s') \<Rightarrow> s')
      | RegisterPage route res \<Rightarrow> registerPage cfg route res s
      | ScriptError i \<Rightarrow> scriptError i s
      | ManifestReady \<Rightarrow> manifestReady cfg s
      | HotStatus status \<Rightarrow> s\<lparr>hotStatus := Some status\<rparr>
      | HotCheck i status \<Rightarrow> hotCheck i status s
      | Prefetch route isDependency \<Rightarrow>
          (case prefetch cfg route isDependency s of Inl e \<Rightarrow> s | Inr s' \<Rightarrow> s')
      | PrefetchData hrefPathname query asPathname \<Rightarrow>
          (case prefetchData cfg utils hrefPathname query asPathname s of
             Inl e \<Rightarrow> s | Inr s' \<Rightarrow> s'))"

definition run :: "config \<Rightarrow> routerUtils \<Rightarrow> op list \<Rightarrow> loader \<Rightarrow> loader" where
  "run cfg utils evs s = foldl (step cfg utils) s evs"

text \<open>\<open>n\<close> calls of \<^verbatim>\<open>loadPage(route)\<close> in a row, with the promises they return.\<close>

fun loadPages :: "config \<Rightarrow> string \<Rightarrow> nat \<Rightarrow> loader \<Rightarrow> error + nat list \<times> loader" where
  "loadPages cfg route 0 s = Inr ([], s)"
| "loadPages cfg route (Suc n) s =
     (case loadPage cfg route s of
        Inl e \<Rightarrow> Inl e
      | Inr (p, s') \<Rightarrow>
          (case loadPages cfg route n s' of
             Inl e \<Rightarrow> Inl e
           | Inr (ps, s'') \<Rightarrow> Inr (p # ps, s'')))"

subsection \<open>Sample configurations\<close>

text \<open>
  A development and a production configuration and a freshly constructed loader, on
  which the theorems below are instantiated.
\<close>

definition devConfig :: config where
  "devConfig =
     \<lparr> buildId = ''build1'', assetPrefix = [], production = False, modernBuild = False,
       hasNoModule = True, hasRelPreload = True, hasRelPrefetch = True,
       navigatorConnection = None, buildManifest = Map.empty, ssgManifest = {} \<rparr>"

definition prodConfig :: config where
  "prodConfig =
     \<lparr> buildId = ''build1'', assetPrefix = [], production = True, modernBuild = False,
       hasNoModule = True, hasRelPreload = True, hasRelPrefetch = True,
       navigatorConnection = None,
       buildManifest = [''/about'' \<mapsto> [''static/chunks/main.js'']],
       ssgManifest = {} \<rparr>"

definition aboutModule :: pageModule where
  "aboutModule = \<lparr> moduleId = ''about'', defaultExport = Some ''About'' \<rparr>"

definition freshLoader :: loader where
  "freshLoader = newPageLoader ''/'' [] [] None"

subsection \<open>Predicates on states and events\<close>

text \<open>
  An event registers a page under the key \<open>r\<close>: a \<^verbatim>\<open>registerPage(r, _)\<close> call, or the status
  handler of a deferred one called with \<^verbatim>\<open>idle\<close>.
\<close>

definition reRegisters :: "loader \<Rightarrow> op \<Rightarrow> string \<Rightarrow> bool" where
  "reRegisters s ev r =
     (case ev of
        RegisterPage r' res \<Rightarrow> r' = r
      | HotCheck i status \<Rightarrow>
          status = ''idle'' \<and> i < length (hotHandlers s) \<and> fst (hotHandlers s ! i) = r
      | _ \<Rightarrow> False)"

text \<open>Every subscribed listener settles a promise that has been created.\<close>

definition wellFormed :: "loader \<Rightarrow> bool" where
  "wellFormed s =
     (\<forall>route. \<forall>h \<in> set (pageRegisterEvents s route). firePromise h < length (promises s))"

text \<open>
  The promises \<open>P\<close> of a batch of \<^verbatim>\<open>loadPage\<close> calls on the key \<open>r\<close>: they are all pending and
  subscribed under \<open>r\<close>, or all settled alike; no listener under another key settles one.
\<close>

definition batchInvariant :: "string \<Rightarrow> nat set \<Rightarrow> loader \<Rightarrow> bool" where
  "batchInvariant r P s =
     ((\<forall>p \<in> P. p < length (promises s)) \<and>
      wellFormed s \<and>
      (\<forall>route. route \<noteq> r \<longrightarrow> (\<forall>h \<in> set (pageRegisterEvents s route). firePromise h \<notin> P)) \<and>
      ((\<forall>p \<in> P. promises s ! p = Pending \<and>
                 (\<exists>h \<in> set (pageRegisterEvents s r). firePromise h = p)) \<or>
       (\<exists>out. out \<noteq> Pending \<and> (\<forall>p \<in> P. promises s ! p = out))))"


text \<open>
  An event that keeps listeners under their own key: every event but a \<^verbatim>\<open>loadPage\<close> in
  development whose route changes when normalised a second time (one that ends in two
  slashes), for which line 252 makes \<^verbatim>\<open>fire\<close> act on another key than the one subscribed.
\<close>

definition tidy :: "config \<Rightarrow> op \<Rightarrow> bool" where
  "tidy cfg ev =
     (case ev of
        LoadPage route \<Rightarrow> production cfg \<or> normalizeTwice route = normalizeRoute route
      | _ \<Rightarrow> True)"

text \<open>
  Every listener acts on the key it is subscribed under, and a key with a listener is
  marked as loading.
\<close>

definition coherent :: "loader \<Rightarrow> bool" where
  "coherent s =
     (wellFormed s \<and>
      (\<forall>route. (\<forall>h \<in> set (pageRegisterEvents s route). fireRoute h = route) \<and>
               (pageRegisterEvents s route \<noteq> [] \<longrightarrow> route \<in> loadingRoutes s)))"

text \<open>
  The promise \<open>p\<close> of a \<^verbatim>\<open>loadPage\<close> call on the key \<open>r\<close>: its listener is under \<open>r\<close> only, and
  while it is pending the key has no cache entry and the listener is subscribed.
\<close>

definition inFlight :: "string \<Rightarrow> nat \<Rightarrow> loader \<Rightarrow> bool" where
  "inFlight r p s =
     (coherent s \<and> p < length (promises s) \<and>
      (\<forall>route. \<forall>h \<in> set (pageRegisterEvents s route). firePromise h = p \<longrightarrow> route = r) \<and>
      (promises s ! p = Pending \<longrightarrow>
         pageCache s r = None \<and> (\<exists>h \<in> set (pageRegisterEvents s r). firePromise h = p)))"


section \<open>Route normalisation\<close>

lemma normalizeRoute_Inr_iff:
  "(\<exists>r. normalizeRoute s = Inr r) = prefix ''/'' s"
  by (cases s) (auto simp: normalizeRoute_def)

text \<open>
  C8. \<open>normalizeRoute\<close> throws the invalid-route error exactly for the inputs that do not
  begin with a slash, the empty string among them; every other input returns normally.
\<close>

theorem normalizeRoute_throws_iff:
  "(normalizeRoute s = Inl (RouteError s)) = (\<not> prefix ''/'' s) \<and>
   (\<exists>e. normalizeRoute s = Inl e) = (\<not> prefix ''/'' s) \<and>
   (\<exists>r. normalizeRoute s = Inr r) = prefix ''/'' s \<and>
   normalizeRoute [] = Inl (RouteError [])"
  by (cases s) (auto simp: normalizeRoute_def)

text \<open>
  C3, as stated: normalising twice equals normalising once for every input with a leading
  slash. The input \<^verbatim>\<open>/foo//\<close> refutes it: one slash is stripped per call.
\<close>

theorem normalizeRoute_not_idempotent:
  "normalizeTwice ''/foo//'' \<noteq> normalizeRoute ''/foo//''"
  by (simp add: normalizeTwice_def normalizeRoute_def stripTrailingSlash_def)

text \<open>
  C3, amended: for an input with a leading slash, normalising twice equals normalising
  once exactly when the input does not end in two slashes, or is \<^verbatim>\<open>//\<close> itself.
\<close>

theorem normalizeRoute_idempotent_iff:
  assumes "prefix ''/'' s"
  shows "(normalizeTwice s = normalizeRoute s) = (\<not> suffix ''//'' s \<or> s = ''//'')"
proof -
  from assms obtain t where s: "s = CHR ''/'' # t" by (cases s) auto
  show ?thesis
  proof (cases t rule: rev_cases)
    case Nil
    then show ?thesis
      using s by (simp add: normalizeTwice_def normalizeRoute_def suffix_def)
  next
    case (snoc u c)
    note t = snoc
    show ?thesis
    proof (cases "c = CHR ''/''")
      case False
      then have "\<not> suffix ''//'' s" using s t by (auto simp: suffix_def)
      moreover have "normalizeRoute s = Inr s" using s t False
        by (simp add: normalizeRoute_def stripTrailingSlash_def)
      ultimately show ?thesis by (simp add: normalizeTwice_def)
    next
      case True
      have n1: "normalizeRoute s = Inr (CHR ''/'' # u)"
        using s t True by (simp add: normalizeRoute_def stripTrailingSlash_def)
      show ?thesis
      proof (cases u rule: rev_cases)
        case Nil
        then show ?thesis
          using s t True n1 by (simp add: normalizeTwice_def normalizeRoute_def)
      next
        case (snoc v d)
        then have n2: "normalizeRoute (CHR ''/'' # u) =
            Inr (if d = CHR ''/'' then CHR ''/'' # v else CHR ''/'' # u)"
          by (simp add: normalizeRoute_def stripTrailingSlash_def)
        have "suffix ''//'' s = (d = CHR ''/'')"
          using s t True snoc by (auto simp: suffix_def)
        then show ?thesis using n1 n2 snoc s t by (auto simp add: normalizeTwice_def)
      qed
    qed
  qed
qed

theorem normalizeRoute_idempotent_iff_witness:
  "prefix ''/'' ''/foo/'' \<and> normalizeTwice ''/foo/'' = normalizeRoute ''/foo/'' \<and>
   normalizeRoute ''/foo/'' = Inr ''/foo''"
  using normalizeRoute_idempotent_iff [of "''/foo/''"]
  by (simp add: normalizeRoute_def stripTrailingSlash_def suffix_def)

section \<open>Asset paths\<close>

lemma take6_index: "(take 6 r = ''/index'') = (\<exists>t. r = ''/index'' @ t)"
proof
  assume a: "take 6 r = ''/index''"
  have "r = take 6 r @ drop 6 r" by simp
  then show "\<exists>t. r = ''/index'' @ t" using a by metis
next
  assume "\<exists>t. r = ''/index'' @ t"
  then show "take 6 r = ''/index''" by auto
qed

lemma indexRouteTest_iff:
  "indexRouteTest r = (r = ''/index'' \<or> prefix ''/index/'' r)"
proof (cases "take 6 r = ''/index''")
  case False
  then show ?thesis by (auto simp: indexRouteTest_def prefix_def)
next
  case True
  then obtain t where r: "r = ''/index'' @ t" using take6_index by blast
  show ?thesis unfolding r by (cases t) (auto simp: indexRouteTest_def prefix_def)
qed

text \<open>
  C9. \<open>getAssetPath\<close> maps the root route to \<^verbatim>\<open>/index\<close>, prepends \<^verbatim>\<open>/index\<close> to every
  route whose first segment is \<^verbatim>\<open>index\<close>, and returns every other route unchanged.
\<close>

theorem getAssetPath_cases:
  "getAssetPath ''/'' = ''/index'' \<and>
   ((r = ''/index'' \<or> prefix ''/index/'' r) \<longrightarrow> getAssetPath r = ''/index'' @ r) \<and>
   (r \<noteq> ''/'' \<and> r \<noteq> ''/index'' \<and> \<not> prefix ''/index/'' r \<longrightarrow> getAssetPath r = r) \<and>
   getAssetPath ''/index/foo'' = ''/index/index/foo'' \<and>
   getAssetPath ''/foo'' = ''/foo''"
  by (auto simp: getAssetPath_def indexRouteTest_iff)

theorem getAssetPath_cases_witness:
  "getAssetPath ''/'' = ''/index'' \<and>
   prefix ''/index/'' ''/index/foo'' \<and>
   getAssetPath ''/index/foo'' = ''/index/index/foo'' \<and>
   getAssetPath ''/foo'' = ''/foo''"
  using getAssetPath_cases [of "''/index/foo''"] by simp

section \<open>The page cache\<close>

text \<open>Which fields each operation leaves alone.\<close>

lemma fire_frame:
  "pageCache (fire h ev s) = pageCache s"
  "scripts (fire h ev s) = scripts s"
  "links (fire h ev s) = links s"
  "manifestWaiters (fire h ev s) = manifestWaiters s"
  "hotStatus (fire h ev s) = hotStatus s"
  "hotHandlers (fire h ev s) = hotHandlers s"
  "length (promises (fire h ev s)) = length (promises s)"
  by (simp_all add: fire_def off_def settle_def Let_def)

lemma foldl_fire_frame:
  "pageCache (foldl (\<lambda>s' h. fire h ev s') s hs) = pageCache s"
  "scripts (foldl (\<lambda>s' h. fire h ev s') s hs) = scripts s"
  "links (foldl (\<lambda>s' h. fire h ev s') s hs) = links s"
  "manifestWaiters (foldl (\<lambda>s' h. fire h ev s') s hs) = manifestWaiters s"
  "hotStatus (foldl (\<lambda>s' h. fire h ev s') s hs) = hotStatus s"
  "hotHandlers (foldl (\<lambda>s' h. fire h ev s') s hs) = hotHandlers s"
  "length (promises (foldl (\<lambda>s' h. fire h ev s') s hs)) = length (promises s)"
  by (induction hs arbitrary: s) (simp_all add: fire_frame)

lemma emit_frame:
  "pageCache (emit r ev s) = pageCache s"
  "scripts (emit r ev s) = scripts s"
  "links (emit r ev s) = links s"
  "manifestWaiters (emit r ev s) = manifestWaiters s"
  "hotStatus (emit r ev s) = hotStatus s"
  "hotHandlers (emit r ev s) = hotHandlers s"
  "length (promises (emit r ev s)) = length (promises s)"
  by (simp_all add: emit_def foldl_fire_frame)

lemma loadPage_cache: "loadPage cfg r s = Inr (p, s') \<Longrightarrow> pageCache s' = pageCache s"
  by (auto simp: loadPage_def Let_def on_def loadScript_def split: sum.splits option.splits if_splits)

lemma scriptError_cache: "pageCache (scriptError i s) = pageCache s"
  by (simp add: scriptError_def emit_frame split: option.splits)

lemma injectDependency_cache: "pageCache (injectDependency cfg r s d) = pageCache s"
  by (simp add: injectDependency_def Let_def loadScript_def appendLink_def)

lemma foldl_inject_cache: "pageCache (foldl (injectDependency cfg r) s ds) = pageCache s"
  by (induction ds arbitrary: s) (simp_all add: injectDependency_cache)

lemma getDependencies_cache: "getDependencies cfg r s = Inr (ds, s') \<Longrightarrow> pageCache s' = pageCache s"
  by (auto simp: getDependencies_def emit_frame split: if_splits option.splits)

lemma loadDependencies_cache: "pageCache (loadDependencies cfg r s) = pageCache s"
  by (auto simp: loadDependencies_def foldl_inject_cache dest: getDependencies_cache split: sum.splits)

lemma prefetch_cache: "prefetch cfg r d s = Inr s' \<Longrightarrow> pageCache s' = pageCache s"
  by (auto simp: prefetch_def Let_def appendLink_def split: if_splits sum.splits option.splits)

lemma prefetchEach_cache: "pageCache (prefetchEach cfg us s) = pageCache s"
  by (induction us arbitrary: s) (auto dest: prefetch_cache split: sum.splits)

lemma prefetchDependencies_cache: "pageCache (prefetchDependencies cfg r s) = pageCache s"
  by (auto simp: prefetchDependencies_def prefetchEach_cache dest: getDependencies_cache split: sum.splits)

lemma manifestReady_cache: "pageCache (manifestReady cfg s) = pageCache s"
  by (simp add: manifestReady_def loadDependencies_cache prefetchDependencies_cache split: list.splits task.splits)

lemma prefetchData_cache: "prefetchData cfg u h q a s = Inr s' \<Longrightarrow> pageCache s' = pageCache s"
  by (auto simp: prefetchData_def appendLink_def split: if_splits sum.splits)

lemma register_cache: "pageCache (register r res s) = (pageCache s)(r \<mapsto> pageDataOf res)"
  by (simp add: register_def Let_def emit_frame)

lemma step_cache_other:
  "\<not> reRegisters s ev r \<Longrightarrow> pageCache (step cfg utils s ev) r = pageCache s r"
  by (cases ev)
     (auto simp: step_def reRegisters_def registerPage_def hotCheck_def register_cache scriptError_cache manifestReady_cache
           dest: loadPage_cache prefetch_cache prefetchData_cache split: sum.splits prod.splits)

lemma step_dom: "dom (pageCache s) \<subseteq> dom (pageCache (step cfg utils s ev))"
  by (cases ev)
     (auto simp: step_def registerPage_def hotCheck_def register_cache scriptError_cache manifestReady_cache
           dest: loadPage_cache prefetch_cache prefetchData_cache split: sum.splits prod.splits)

lemma run_dom: "dom (pageCache s) \<subseteq> dom (pageCache (run cfg utils evs s))"
  unfolding run_def
proof (induction evs arbitrary: s)
  case Nil show ?case by simp
next
  case (Cons ev evs)
  have "dom (pageCache s) \<subseteq> dom (pageCache (step cfg utils s ev))" by (rule step_dom)
  also have "\<dots> \<subseteq> dom (pageCache (foldl (step cfg utils) (step cfg utils s ev) evs))" by (rule Cons.IH)
  finally show ?case by simp
qed

lemma register_frame:
  "hotStatus (register r res s) = hotStatus s"
  "hotHandlers (register r res s) = hotHandlers s"
  "scripts (register r res s) = scripts s"
  "links (register r res s) = links s"
  "manifestWaiters (register r res s) = manifestWaiters s"
  by (simp_all add: register_def Let_def emit_frame)

text \<open>
  C5, as stated: an entry of the page cache is created once and never replaced. Two
  registrations of the same route refute it: the second entry replaces the first.
\<close>

theorem pageCache_entry_replaced:
  "pageCache (run devConfig specUtils [RegisterPage ''/about'' (Inr aboutModule)] freshLoader)
     ''/about'' = Some (Loaded (DefaultExport ''About'') aboutModule) \<and>
   pageCache (run devConfig specUtils
       [RegisterPage ''/about'' (Inr aboutModule),
        RegisterPage ''/about'' (Inl (Thrown ''boom''))] freshLoader)
     ''/about'' = Some (Failed (Thrown ''boom''))"
  by (simp add: run_def step_def registerPage_def register_cache register_frame
        freshLoader_def newPageLoader_def pageDataOf_def pageOf_def aboutModule_def)

text \<open>
  C5, amended: the entry of a route is written by the registration of that route only,
  which stores its result over whatever was there; every other event leaves the entry
  as it is, and no run of events removes an entry.
\<close>

theorem pageCache_written_by_register_only:
  "(\<not> reRegisters s ev r \<longrightarrow> pageCache (step cfg utils s ev) r = pageCache s r) \<and>
   (production cfg \<or> hotStatus s = None \<or> hotStatus s = Some ''idle'' \<longrightarrow>
      pageCache (step cfg utils s (RegisterPage r res)) r = Some (pageDataOf res)) \<and>
   dom (pageCache s) \<subseteq> dom (pageCache (run cfg utils evs s))"
proof -
  have a: "\<not> reRegisters s ev r \<longrightarrow> pageCache (step cfg utils s ev) r = pageCache s r"
    by (simp add: step_cache_other)
  have b: "production cfg \<or> hotStatus s = None \<or> hotStatus s = Some ''idle'' \<longrightarrow>
      pageCache (step cfg utils s (RegisterPage r res)) r = Some (pageDataOf res)"
    by (auto simp: step_def registerPage_def register_cache)
  have c: "dom (pageCache s) \<subseteq> dom (pageCache (run cfg utils evs s))"
    by (rule run_dom)
  show ?thesis using a b c by blast
qed

theorem pageCache_written_by_register_only_witness:
  "pageCache (step devConfig specUtils freshLoader (LoadPage ''/about'')) ''/about'' = None \<and>
   pageCache (step devConfig specUtils freshLoader (RegisterPage ''/about'' (Inr aboutModule)))
     ''/about'' = Some (Loaded (DefaultExport ''About'') aboutModule)"
  using pageCache_written_by_register_only
    [of freshLoader "LoadPage ''/about''" "''/about''" devConfig specUtils "Inr aboutModule" "[]"]
  by (simp add: reRegisters_def freshLoader_def newPageLoader_def pageDataOf_def pageOf_def
        aboutModule_def)

text \<open>
  C2, as stated: once the cache holds a failure for a route, every later \<^verbatim>\<open>loadPage\<close> of it
  rejects with the cached error, for the lifetime of the process. A second registration
  of the route replaces the failure, and the next \<^verbatim>\<open>loadPage\<close> resolves; and a failure
  entry whose error is a falsy thrown value makes \<^verbatim>\<open>loadPage\<close> resolve at once.
\<close>

theorem failed_route_loads_after_reregistration:
  "pageCache (run devConfig specUtils [RegisterPage ''/about'' (Inl (Thrown ''boom''))] freshLoader)
     ''/about'' = Some (Failed (Thrown ''boom'')) \<and>
   promises (run devConfig specUtils
       [RegisterPage ''/about'' (Inl (Thrown ''boom'')),
        RegisterPage ''/about'' (Inr aboutModule),
        LoadPage ''/about''] freshLoader)
     = [Resolved (DefaultExport ''About'') aboutModule] \<and>
   pageCache (run devConfig specUtils [RegisterPage ''/about'' (Inl (ThrownFalsy ''null''))] freshLoader)
     ''/about'' = Some (Failed (ThrownFalsy ''null'')) \<and>
   promises (run devConfig specUtils
       [RegisterPage ''/about'' (Inl (ThrownFalsy ''null'')), LoadPage ''/about''] freshLoader)
     = [ResolvedUndefined]"
  by (simp add: run_def step_def registerPage_def register_cache register_frame
        freshLoader_def newPageLoader_def pageDataOf_def pageOf_def aboutModule_def
        loadPage_def normalizeRoute_def stripTrailingSlash_def Let_def settle_def
        outcomeOf_def truthy_def register_def emit_def devConfig_def)

lemma settle_new: "settle (length ps) out (ps @ [Pending]) = ps @ [out]"
  by (simp add: settle_def)

lemma loadPage_cached:
  "normalizeRoute r0 = Inr r \<Longrightarrow> pageCache s r = Some d \<Longrightarrow>
    loadPage cfg r0 s = Inr (length (promises s), s\<lparr>promises := promises s @ [outcomeOf d]\<rparr>)"
  by (simp add: loadPage_def Let_def settle_new)

lemma register_promises_length: "length (promises (register r res s)) = length (promises s)"
  by (simp add: register_def Let_def emit_frame)

text \<open>
  C2, amended: while the cache holds a failure with a truthy error under the normalised
  route, \<^verbatim>\<open>loadPage\<close> returns a promise rejected with the cached error and changes nothing
  else (no listener, no loading mark, no script, no dependency lookup); the failure stays
  under every event except a registration of that route; a registration of the route
  that is not deferred stores its result over the failure, and after one that returns a
  module \<^verbatim>\<open>loadPage\<close> resolves with that module.
\<close>

theorem loadPage_cached_failure:
  assumes "normalizeRoute route0 = Inr r" "pageCache s r = Some (Failed e)" "truthy e"
  shows "loadPage cfg route0 s =
           Inr (length (promises s), s\<lparr>promises := promises s @ [Rejected e]\<rparr>) \<and>
         (\<not> reRegisters s ev r \<longrightarrow> pageCache (step cfg utils s ev) r = Some (Failed e)) \<and>
         (production cfg \<or> hotStatus s = None \<or> hotStatus s = Some ''idle'' \<longrightarrow>
            pageCache (registerPage cfg r res s) r = Some (pageDataOf res) \<and>
            loadPage cfg route0 (registerPage cfg r (Inr m) s) =
              Inr (length (promises s),
                   (registerPage cfg r (Inr m) s)
                     \<lparr>promises := promises (registerPage cfg r (Inr m) s) @ [Resolved (pageOf m) m]\<rparr>))"
proof -
  have a: "loadPage cfg route0 s =
           Inr (length (promises s), s\<lparr>promises := promises s @ [Rejected e]\<rparr>)"
    using assms by (simp add: loadPage_cached outcomeOf_def)
  have b: "\<not> reRegisters s ev r \<longrightarrow> pageCache (step cfg utils s ev) r = Some (Failed e)"
    using assms by (simp add: step_cache_other)
  have c: "production cfg \<or> hotStatus s = None \<or> hotStatus s = Some ''idle'' \<longrightarrow>
            pageCache (registerPage cfg r res s) r = Some (pageDataOf res) \<and>
            loadPage cfg route0 (registerPage cfg r (Inr m) s) =
              Inr (length (promises s),
                   (registerPage cfg r (Inr m) s)
                     \<lparr>promises := promises (registerPage cfg r (Inr m) s) @ [Resolved (pageOf m) m]\<rparr>)"
  proof
    assume now: "production cfg \<or> hotStatus s = None \<or> hotStatus s = Some ''idle''"
    have reg: "\<And>x. registerPage cfg r x s = register r x s"
      using now by (auto simp: registerPage_def)
    have c1: "pageCache (register r (Inr m) s) r = Some (Loaded (pageOf m) m)"
      by (simp add: register_cache pageDataOf_def)
    have "loadPage cfg route0 (register r (Inr m) s) =
        Inr (length (promises (register r (Inr m) s)),
             (register r (Inr m) s)\<lparr>promises := promises (register r (Inr m) s) @
                 [outcomeOf (Loaded (pageOf m) m)]\<rparr>)"
      using assms(1) c1 by (rule loadPage_cached)
    then show "pageCache (registerPage cfg r res s) r = Some (pageDataOf res) \<and>
            loadPage cfg route0 (registerPage cfg r (Inr m) s) =
              Inr (length (promises s),
                   (registerPage cfg r (Inr m) s)
                     \<lparr>promises := promises (registerPage cfg r (Inr m) s) @ [Resolved (pageOf m) m]\<rparr>)"
      by (simp add: reg register_cache register_promises_length outcomeOf_def)
  qed
  show ?thesis using a b c by blast
qed

theorem loadPage_cached_failure_witness:
  "pageCache (register ''/about'' (Inl (Thrown ''boom'')) freshLoader) ''/about''
     = Some (Failed (Thrown ''boom'')) \<and>
   truthy (Thrown ''boom'') \<and>
   loadPage prodConfig ''/about/'' (register ''/about'' (Inl (Thrown ''boom'')) freshLoader) =
     Inr (0, (register ''/about'' (Inl (Thrown ''boom'')) freshLoader)
               \<lparr>promises := [Rejected (Thrown ''boom'')]\<rparr>)"
proof -
  let ?s = "register ''/about'' (Inl (Thrown ''boom'')) freshLoader"
  have n: "normalizeRoute ''/about/'' = Inr ''/about''"
    by (simp add: normalizeRoute_def stripTrailingSlash_def)
  have c: "pageCache ?s ''/about'' = Some (Failed (Thrown ''boom''))"
    by (simp add: register_cache pageDataOf_def)
  have t: "truthy (Thrown ''boom'')" by (simp add: truthy_def)
  have p: "promises ?s = []"
    by (simp add: register_def Let_def emit_def freshLoader_def newPageLoader_def)
  show ?thesis
    using loadPage_cached_failure [OF n c t, of prodConfig "LoadPage []" specUtils "Inr aboutModule" aboutModule] c t p
    by simp
qed

section \<open>Trailing slashes and the cache key\<close>

text \<open>
  C10. \<^verbatim>\<open>loadPage\<close> normalises its argument first: for a route \<open>r\<close> other than the root
  that ends in exactly one slash, \<open>r\<close> and \<open>r\<close> without that slash normalise to the same
  key, and the two calls return the same promise and the same state, so they read and
  write the same cache entry, loading mark and listener list. A route without a leading
  slash makes both calls throw before any access.
\<close>

theorem loadPage_trailing_slash_same_key:
  assumes "r = x @ ''/''" "x \<noteq> []" "last x \<noteq> CHR ''/''"
  shows "(prefix ''/'' r \<longrightarrow>
            normalizeRoute r = Inr x \<and> normalizeRoute x = Inr x \<and>
            loadPage cfg r s = loadPage cfg x s) \<and>
         (\<not> prefix ''/'' r \<longrightarrow>
            loadPage cfg r s = Inl (RouteError r) \<and> loadPage cfg x s = Inl (RouteError x))"
proof -
  obtain c t where x: "x = c # t" using assms(2) by (cases x) auto
  show ?thesis
  proof (cases "c = CHR ''/''")
    case True
    have t: "t \<noteq> []" using assms(3) x True by auto
    have n1: "normalizeRoute r = Inr x" using assms x True t
      by (simp add: normalizeRoute_def stripTrailingSlash_def)
    have n2: "normalizeRoute x = Inr x" using assms x True t
      by (simp add: normalizeRoute_def stripTrailingSlash_def)
    show ?thesis using n1 n2 assms(1) x True by (simp add: loadPage_def)
  next
    case False
    then show ?thesis using assms(1) x by (simp add: loadPage_def normalizeRoute_def)
  qed
qed

theorem loadPage_trailing_slash_same_key_witness:
  "normalizeRoute ''/about/'' = Inr ''/about'' \<and>
   loadPage devConfig ''/about/'' freshLoader = loadPage devConfig ''/about'' freshLoader \<and>
   (\<exists>p s'. loadPage devConfig ''/about/'' freshLoader = Inr (p, s') \<and>
            ''/about'' \<in> loadingRoutes s' \<and>
            pageRegisterEvents s' ''/about'' = [Fire 0 ''/about''])"
proof -
  have "loadPage devConfig ''/about'' freshLoader = Inr (0,
      loadScript devConfig (assetPrefix devConfig @ ''/_next/static/pages'' @
          encodeURI (getAssetPath ''/about'') @ ''.js'') ''/about''
        (on ''/about'' (Fire 0 ''/about'')
           (freshLoader\<lparr>promises := [Pending],
              loadingRoutes := insert ''/about'' (loadingRoutes freshLoader)\<rparr>)))"
    by (simp add: loadPage_def normalizeRoute_def stripTrailingSlash_def Let_def
          freshLoader_def newPageLoader_def devConfig_def)
  then show ?thesis
    using loadPage_trailing_slash_same_key [of "''/about/''" "''/about''" devConfig freshLoader]
    by (simp add: loadScript_def on_def freshLoader_def newPageLoader_def)
qed

section \<open>Concurrent loads of one route\<close>

lemma outcomeOf_not_Pending: "outcomeOf ev \<noteq> Pending"
  by (simp add: outcomeOf_def split: pageData.splits)

lemma outcomeOf_pageLoadError: "outcomeOf (Failed (PageLoadError r)) = Rejected (PageLoadError r)"
  by (simp add: outcomeOf_def truthy_def)

lemma fire_promises: "promises (fire h ev s) = settle (firePromise h) (outcomeOf ev) (promises s)"
  by (simp add: fire_def off_def Let_def)

lemma fire_events: "pageRegisterEvents (fire h ev s) =
   (pageRegisterEvents s)(fireRoute h := remove1 h (pageRegisterEvents s (fireRoute h)))"
  by (simp add: fire_def off_def Let_def)

lemma settle_nth: "settle q out ps ! p = (if p = q \<and> q < length ps \<and> ps ! q = Pending then out else ps ! p)"
  by (simp add: settle_def)

lemma length_settle: "length (settle q out ps) = length ps"
  by (simp add: settle_def)

lemma foldl_fire_promises:
  "promises (foldl (\<lambda>s' h. fire h ev s') s hs) ! p =
     (if p < length (promises s) \<and> promises s ! p = Pending \<and> p \<in> firePromise ` set hs
      then outcomeOf ev else promises s ! p)"
proof (induction hs arbitrary: s)
  case Nil show ?case by simp
next
  case (Cons h hs)
  show ?case
    using outcomeOf_not_Pending [of ev]
    by (auto simp: Cons.IH fire_promises settle_nth length_settle)
qed

lemma foldl_fire_events_subset:
  "set (pageRegisterEvents (foldl (\<lambda>s' h. fire h ev s') s hs) route) \<subseteq> set (pageRegisterEvents s route)"
proof (induction hs arbitrary: s)
  case Nil show ?case by simp
next
  case (Cons h hs)
  have "set (pageRegisterEvents (fire h ev s) route) \<subseteq> set (pageRegisterEvents s route)"
    using set_remove1_subset [of h] by (auto simp: fire_events)
  with Cons.IH [of "fire h ev s"] show ?case by auto
qed

lemma foldl_fire_events_keep:
  "h \<in> set (pageRegisterEvents s route) \<Longrightarrow> firePromise h \<notin> firePromise ` set hs \<Longrightarrow>
   h \<in> set (pageRegisterEvents (foldl (\<lambda>s' h. fire h ev s') s hs) route)"
proof (induction hs arbitrary: s)
  case Nil then show ?case by simp
next
  case (Cons h' hs)
  have ne: "h \<noteq> h'" using Cons.prems(2) by auto
  have "h \<in> set (pageRegisterEvents (fire h' ev s) route)"
    using Cons.prems(1) ne by (auto simp: fire_events)
  then show ?case using Cons.IH [of "fire h' ev s"] Cons.prems(2) by simp
qed

lemma emit_promises:
  "promises (emit route ev s) ! p =
     (if p < length (promises s) \<and> promises s ! p = Pending \<and>
         p \<in> firePromise ` set (pageRegisterEvents s route)
      then outcomeOf ev else promises s ! p)"
  by (simp add: emit_def foldl_fire_promises)

lemma emit_events_subset:
  "set (pageRegisterEvents (emit route ev s) route') \<subseteq> set (pageRegisterEvents s route')"
  by (simp add: emit_def foldl_fire_events_subset)

lemma emit_events_keep:
  "h \<in> set (pageRegisterEvents s route') \<Longrightarrow>
   firePromise h \<notin> firePromise ` set (pageRegisterEvents s route) \<Longrightarrow>
   h \<in> set (pageRegisterEvents (emit route ev s) route')"
  by (simp add: emit_def foldl_fire_events_keep)

lemma emit_wellFormed: "wellFormed s \<Longrightarrow> wellFormed (emit route ev s)"
  unfolding wellFormed_def using emit_events_subset [of route ev s]
  by (auto simp: emit_frame)

lemma emit_batchInvariant:
  assumes "batchInvariant r P s"
  shows "batchInvariant r P (emit route ev s)"
proof -
  let ?t = "emit route ev s"
  from assms have len: "\<forall>p \<in> P. p < length (promises s)" and wf: "wellFormed s"
    and other: "\<forall>route. route \<noteq> r \<longrightarrow> (\<forall>h \<in> set (pageRegisterEvents s route). firePromise h \<notin> P)"
    and fate: "(\<forall>p \<in> P. promises s ! p = Pending \<and> (\<exists>h \<in> set (pageRegisterEvents s r). firePromise h = p)) \<or>
       (\<exists>out. out \<noteq> Pending \<and> (\<forall>p \<in> P. promises s ! p = out))"
    by (auto simp: batchInvariant_def)
  have 1: "\<forall>p \<in> P. p < length (promises ?t)" using len by (simp add: emit_frame)
  have 2: "wellFormed ?t" using wf by (rule emit_wellFormed)
  have 3: "\<forall>route'. route' \<noteq> r \<longrightarrow> (\<forall>h \<in> set (pageRegisterEvents ?t route'). firePromise h \<notin> P)"
    using other emit_events_subset [of route ev s] by blast
  have 4: "(\<forall>p \<in> P. promises ?t ! p = Pending \<and> (\<exists>h \<in> set (pageRegisterEvents ?t r). firePromise h = p)) \<or>
       (\<exists>out. out \<noteq> Pending \<and> (\<forall>p \<in> P. promises ?t ! p = out))"
    using fate
  proof
    assume settled: "\<exists>out. out \<noteq> Pending \<and> (\<forall>p \<in> P. promises s ! p = out)"
    then obtain out where "out \<noteq> Pending" "\<forall>p \<in> P. promises s ! p = out" by blast
    then have "\<forall>p \<in> P. promises ?t ! p = out" by (simp add: emit_promises)
    with \<open>out \<noteq> Pending\<close> show ?thesis by blast
  next
    assume pend: "\<forall>p \<in> P. promises s ! p = Pending \<and> (\<exists>h \<in> set (pageRegisterEvents s r). firePromise h = p)"
    show ?thesis
    proof (cases "route = r")
      case True
      have "\<forall>p \<in> P. promises ?t ! p = outcomeOf ev"
        using pend len True by (auto simp: emit_promises)
      then show ?thesis using outcomeOf_not_Pending [of ev] by blast
    next
      case False
      have notin: "\<And>p. p \<in> P \<Longrightarrow> p \<notin> firePromise ` set (pageRegisterEvents s route)"
        using other False by blast
      have "\<forall>p \<in> P. promises ?t ! p = Pending \<and> (\<exists>h \<in> set (pageRegisterEvents ?t r). firePromise h = p)"
      proof
        fix p assume p: "p \<in> P"
        then obtain h where h: "h \<in> set (pageRegisterEvents s r)" "firePromise h = p" using pend by blast
        have "h \<in> set (pageRegisterEvents ?t r)" using h notin [OF p] by (auto intro: emit_events_keep)
        moreover have "promises ?t ! p = Pending" using pend p notin [OF p] by (simp add: emit_promises)
        ultimately show "promises ?t ! p = Pending \<and> (\<exists>h \<in> set (pageRegisterEvents ?t r). firePromise h = p)"
          using h by blast
      qed
      then show ?thesis by blast
    qed
  qed
  show ?thesis unfolding batchInvariant_def using 1 2 3 4 by blast
qed

lemma batchInvariant_frame:
  "batchInvariant r P s \<Longrightarrow> promises s' = promises s \<Longrightarrow>
   pageRegisterEvents s' = pageRegisterEvents s \<Longrightarrow> batchInvariant r P s'"
  by (simp add: batchInvariant_def wellFormed_def)

lemma loadPage_promises:
  assumes "loadPage cfg x s = Inr (p, s')"
  shows "p = length (promises s) \<and> length (promises s') = Suc p \<and>
         (\<forall>q < p. promises s' ! q = promises s ! q)"
  using assms
  by (auto simp: loadPage_def Let_def on_def loadScript_def settle_def nth_append
           split: sum.splits option.splits if_splits)

lemma loadPage_events_sub:
  assumes "loadPage cfg x s = Inr (p, s')" "h \<in> set (pageRegisterEvents s' route)"
  shows "h \<in> set (pageRegisterEvents s route) \<or> firePromise h = p"
  using assms
  by (auto simp: loadPage_def Let_def on_def loadScript_def
           split: sum.splits option.splits if_splits)

lemma loadPage_events_sup:
  assumes "loadPage cfg x s = Inr (p, s')" "h \<in> set (pageRegisterEvents s route)"
  shows "h \<in> set (pageRegisterEvents s' route)"
  using assms
  by (auto simp: loadPage_def Let_def on_def loadScript_def
           split: sum.splits option.splits if_splits)

lemma loadPage_batchInvariant:
  assumes lp: "loadPage cfg x s = Inr (p, s')" and inv: "batchInvariant r P s"
  shows "batchInvariant r P s'"
proof -
  note sh = loadPage_promises [OF lp]
  note sub = loadPage_events_sub [OF lp]
  note sup = loadPage_events_sup [OF lp]
  from inv have len: "\<forall>q \<in> P. q < length (promises s)" and wf: "wellFormed s"
    and other: "\<forall>route. route \<noteq> r \<longrightarrow> (\<forall>h \<in> set (pageRegisterEvents s route). firePromise h \<notin> P)"
    and fate: "(\<forall>p \<in> P. promises s ! p = Pending \<and> (\<exists>h \<in> set (pageRegisterEvents s r). firePromise h = p)) \<or>
       (\<exists>out. out \<noteq> Pending \<and> (\<forall>p \<in> P. promises s ! p = out))"
    by (auto simp: batchInvariant_def)
  have pP: "p \<notin> P" using len sh by auto
  have same: "\<forall>q \<in> P. promises s' ! q = promises s ! q" using len sh by auto
  have 1: "\<forall>q \<in> P. q < length (promises s')" using len sh by auto
  have 2: "wellFormed s'" unfolding wellFormed_def
  proof (intro allI ballI)
    fix route h assume "h \<in> set (pageRegisterEvents s' route)"
    then have "h \<in> set (pageRegisterEvents s route) \<or> firePromise h = p" by (rule sub)
    then show "firePromise h < length (promises s')"
    proof
      assume "h \<in> set (pageRegisterEvents s route)"
      then have "firePromise h < length (promises s)" using wf by (auto simp: wellFormed_def)
      then show ?thesis using sh by simp
    next
      assume "firePromise h = p" then show ?thesis using sh by simp
    qed
  qed
  have 3: "\<forall>route. route \<noteq> r \<longrightarrow> (\<forall>h \<in> set (pageRegisterEvents s' route). firePromise h \<notin> P)"
  proof (intro allI impI ballI)
    fix route h assume ne: "route \<noteq> r" and h: "h \<in> set (pageRegisterEvents s' route)"
    from sub [OF h] show "firePromise h \<notin> P" using other ne pP by auto
  qed
  have 4: "(\<forall>p \<in> P. promises s' ! p = Pending \<and> (\<exists>h \<in> set (pageRegisterEvents s' r). firePromise h = p)) \<or>
       (\<exists>out. out \<noteq> Pending \<and> (\<forall>p \<in> P. promises s' ! p = out))"
    using fate
  proof
    assume a: "\<forall>p \<in> P. promises s ! p = Pending \<and> (\<exists>h \<in> set (pageRegisterEvents s r). firePromise h = p)"
    have "\<forall>p \<in> P. promises s' ! p = Pending \<and> (\<exists>h \<in> set (pageRegisterEvents s' r). firePromise h = p)"
    proof
      fix q assume q: "q \<in> P"
      then obtain h where "h \<in> set (pageRegisterEvents s r)" "firePromise h = q" using a by blast
      then have "\<exists>h \<in> set (pageRegisterEvents s' r). firePromise h = q" using sup by blast
      moreover have "promises s' ! q = Pending" using a same q by simp
      ultimately show "promises s' ! q = Pending \<and> (\<exists>h \<in> set (pageRegisterEvents s' r). firePromise h = q)" by simp
    qed
    then show ?thesis by blast
  next
    assume "\<exists>out. out \<noteq> Pending \<and> (\<forall>p \<in> P. promises s ! p = out)"
    then obtain out where "out \<noteq> Pending" "\<forall>p \<in> P. promises s ! p = out" by blast
    then have "out \<noteq> Pending \<and> (\<forall>p \<in> P. promises s' ! p = out)" using same by simp
    then show ?thesis by blast
  qed
  show ?thesis unfolding batchInvariant_def using 1 2 3 4 by blast
qed

lemma injectDependency_pe:
  "promises (injectDependency cfg r s d) = promises s"
  "pageRegisterEvents (injectDependency cfg r s d) = pageRegisterEvents s"
  by (simp_all add: injectDependency_def Let_def loadScript_def appendLink_def)

lemma foldl_inject_pe:
  "promises (foldl (injectDependency cfg r) s ds) = promises s"
  "pageRegisterEvents (foldl (injectDependency cfg r) s ds) = pageRegisterEvents s"
  by (induction ds arbitrary: s) (simp_all add: injectDependency_pe)

lemma prefetch_pe:
  "prefetch cfg r d s = Inr s' \<Longrightarrow> promises s' = promises s \<and> pageRegisterEvents s' = pageRegisterEvents s"
  by (auto simp: prefetch_def Let_def appendLink_def split: if_splits sum.splits option.splits)

lemma prefetchEach_pe:
  "promises (prefetchEach cfg us s) = promises s \<and> pageRegisterEvents (prefetchEach cfg us s) = pageRegisterEvents s"
  by (induction us arbitrary: s) (auto dest: prefetch_pe split: sum.splits)

lemma prefetchData_pe:
  "prefetchData cfg u h q a s = Inr s' \<Longrightarrow> promises s' = promises s \<and> pageRegisterEvents s' = pageRegisterEvents s"
  by (auto simp: prefetchData_def appendLink_def split: if_splits sum.splits)

lemma getDependencies_batchInvariant:
  assumes "getDependencies cfg x s = Inr (ds, s')" "batchInvariant r P s"
  shows "batchInvariant r P s'"
proof (cases "buildManifest cfg x")
  case None
  then have "s' = emit x (Failed (pageLoadError x)) s"
    using assms(1) by (simp add: getDependencies_def split: if_splits)
  then show ?thesis using assms(2) by (simp add: emit_batchInvariant)
next
  case (Some urls)
  then have "s' = s" using assms(1) by (simp add: getDependencies_def split: if_splits)
  then show ?thesis using assms(2) by simp
qed

lemma register_batchInvariant:
  assumes "batchInvariant r P s" shows "batchInvariant r P (register x res s)"
proof -
  have "batchInvariant r P (s\<lparr>pageCache := (pageCache s)(x \<mapsto> pageDataOf res)\<rparr>)"
    by (rule batchInvariant_frame [OF assms]) simp_all
  then show ?thesis by (simp add: register_def Let_def emit_batchInvariant)
qed

lemma registerPage_batchInvariant:
  assumes "batchInvariant r P s" shows "batchInvariant r P (registerPage cfg x res s)"
proof -
  have "batchInvariant r P (s\<lparr>hotHandlers := hotHandlers s @ [(x, res)]\<rparr>)"
    by (rule batchInvariant_frame [OF assms]) simp_all
  then show ?thesis using assms
    by (simp add: registerPage_def register_batchInvariant)
qed

lemma scriptError_batchInvariant:
  "batchInvariant r P s \<Longrightarrow> batchInvariant r P (scriptError i s)"
  by (simp add: scriptError_def emit_batchInvariant split: option.splits)

lemma hotCheck_batchInvariant:
  assumes "batchInvariant r P s" shows "batchInvariant r P (hotCheck i st s)"
proof (cases "i < length (hotHandlers s) \<and> st = ''idle''")
  case False
  then show ?thesis using assms by (auto simp: hotCheck_def)
next
  case True
  obtain x res where h: "hotHandlers s ! i = (x, res)" by (cases "hotHandlers s ! i")
  have "batchInvariant r P (s\<lparr>hotHandlers := take i (hotHandlers s) @ drop (Suc i) (hotHandlers s)\<rparr>)"
    by (rule batchInvariant_frame [OF assms]) simp_all
  then have "batchInvariant r P (register x res
       (s\<lparr>hotHandlers := take i (hotHandlers s) @ drop (Suc i) (hotHandlers s)\<rparr>))"
    by (rule register_batchInvariant)
  then show ?thesis using True h by (simp add: hotCheck_def)
qed

lemma loadDependencies_batchInvariant:
  assumes "batchInvariant r P s" shows "batchInvariant r P (loadDependencies cfg x s)"
proof (cases "getDependencies cfg x s")
  case (Inl e)
  then show ?thesis using assms by (simp add: loadDependencies_def)
next
  case (Inr v)
  obtain ds s' where v: "v = (ds, s')" by (cases v)
  have g: "getDependencies cfg x s = Inr (ds, s')" using Inr v by simp
  have "batchInvariant r P s'" by (rule getDependencies_batchInvariant [OF g assms])
  then have "batchInvariant r P (foldl (injectDependency cfg x) s' ds)"
    by (rule batchInvariant_frame) (simp_all add: foldl_inject_pe)
  then show ?thesis using g by (simp add: loadDependencies_def)
qed

lemma prefetchDependencies_batchInvariant:
  assumes "batchInvariant r P s" shows "batchInvariant r P (prefetchDependencies cfg x s)"
proof (cases "getDependencies cfg x s")
  case (Inl e)
  then show ?thesis using assms by (simp add: prefetchDependencies_def)
next
  case (Inr v)
  obtain ds s' where v: "v = (ds, s')" by (cases v)
  have g: "getDependencies cfg x s = Inr (ds, s')" using Inr v by simp
  have "batchInvariant r P s'" by (rule getDependencies_batchInvariant [OF g assms])
  then have "batchInvariant r P (prefetchEach cfg ds s')"
    by (rule batchInvariant_frame) (simp_all add: prefetchEach_pe)
  then show ?thesis using g by (simp add: prefetchDependencies_def)
qed

lemma manifestReady_batchInvariant:
  assumes "batchInvariant r P s" shows "batchInvariant r P (manifestReady cfg s)"
proof (cases "manifestWaiters s")
  case Nil
  then show ?thesis using assms by (simp add: manifestReady_def)
next
  case (Cons t ts)
  have inv': "batchInvariant r P (s\<lparr>manifestWaiters := ts\<rparr>)"
    by (rule batchInvariant_frame [OF assms]) simp_all
  show ?thesis
  proof (cases t)
    case (LoadDeps x)
    then show ?thesis using Cons loadDependencies_batchInvariant [OF inv']
      by (simp add: manifestReady_def)
  next
    case (PrefetchDeps x)
    then show ?thesis using Cons prefetchDependencies_batchInvariant [OF inv']
      by (simp add: manifestReady_def)
  qed
qed

lemma loadPage_step_batchInvariant:
  assumes "batchInvariant r P s"
  shows "batchInvariant r P (case loadPage cfg x s of Inl e \<Rightarrow> s | Inr (p, s') \<Rightarrow> s')"
proof (cases "loadPage cfg x s")
  case (Inl e)
  then show ?thesis using assms by simp
next
  case (Inr v)
  obtain p s' where v: "v = (p, s')" by (cases v)
  have lp: "loadPage cfg x s = Inr (p, s')" using Inr v by simp
  have "batchInvariant r P s'" by (rule loadPage_batchInvariant [OF lp assms])
  then show ?thesis using lp by simp
qed

lemma prefetch_step_batchInvariant:
  assumes "batchInvariant r P s"
  shows "batchInvariant r P (case prefetch cfg x d s of Inl e \<Rightarrow> s | Inr s' \<Rightarrow> s')"
proof (cases "prefetch cfg x d s")
  case (Inl e)
  then show ?thesis using assms by simp
next
  case (Inr s')
  have "batchInvariant r P s'" using prefetch_pe [OF Inr] by (intro batchInvariant_frame [OF assms]) simp_all
  then show ?thesis using Inr by simp
qed

lemma prefetchData_step_batchInvariant:
  assumes "batchInvariant r P s"
  shows "batchInvariant r P (case prefetchData cfg u h q a s of Inl e \<Rightarrow> s | Inr s' \<Rightarrow> s')"
proof (cases "prefetchData cfg u h q a s")
  case (Inl e)
  then show ?thesis using assms by simp
next
  case (Inr s')
  have "batchInvariant r P s'" using prefetchData_pe [OF Inr] by (intro batchInvariant_frame [OF assms]) simp_all
  then show ?thesis using Inr by simp
qed

lemma step_batchInvariant:
  assumes inv: "batchInvariant r P s"
  shows "batchInvariant r P (step cfg utils s ev)"
proof (cases ev)
  case (LoadPage x)
  then show ?thesis using loadPage_step_batchInvariant [OF inv] by (simp add: step_def)
next
  case (RegisterPage x res)
  then show ?thesis using registerPage_batchInvariant [OF inv] by (simp add: step_def)
next
  case (ScriptError i)
  then show ?thesis using scriptError_batchInvariant [OF inv] by (simp add: step_def)
next
  case ManifestReady
  then show ?thesis using manifestReady_batchInvariant [OF inv] by (simp add: step_def)
next
  case (HotStatus st)
  have "batchInvariant r P (s\<lparr>hotStatus := Some st\<rparr>)"
    by (rule batchInvariant_frame [OF inv]) simp_all
  then show ?thesis using HotStatus by (simp add: step_def)
next
  case (HotCheck i st)
  then show ?thesis using hotCheck_batchInvariant [OF inv] by (simp add: step_def)
next
  case (Prefetch x d)
  then show ?thesis using prefetch_step_batchInvariant [OF inv] by (simp add: step_def)
next
  case (PrefetchData h q a)
  then show ?thesis using prefetchData_step_batchInvariant [OF inv] by (simp add: step_def)
qed

lemma run_batchInvariant:
  "batchInvariant r P s \<Longrightarrow> batchInvariant r P (run cfg utils evs s)"
  unfolding run_def by (induction evs arbitrary: s) (simp_all add: step_batchInvariant)

lemma batchInvariant_same:
  "batchInvariant r P s \<Longrightarrow> p \<in> P \<Longrightarrow> q \<in> P \<Longrightarrow> promises s ! p = promises s ! q"
  by (auto simp: batchInvariant_def)

lemma normalizeRoute_again:
  assumes "normalizeRoute r0 = Inr r"
  shows "\<exists>r'. normalizeRoute r = Inr r'"
proof -
  from assms obtain t where r0: "r0 = CHR ''/'' # t"
    by (cases r0) (auto simp: normalizeRoute_def split: if_splits)
  have "prefix ''/'' r"
  proof (cases t rule: rev_cases)
    case Nil
    then show ?thesis using assms r0 by (auto simp: normalizeRoute_def)
  next
    case (snoc u c)
    then show ?thesis using assms r0
      by (auto simp: normalizeRoute_def stripTrailingSlash_def split: if_splits)
  qed
  then show ?thesis by (simp add: normalizeRoute_Inr_iff)
qed

lemma loadPage_first:
  assumes "normalizeRoute r0 = Inr r" "normalizeRoute r = Inr r'"
    "pageCache s r = None" "r \<notin> loadingRoutes s"
  shows "loadPage cfg r0 s = Inr (length (promises s),
      (if production cfg then
         s\<lparr>promises := promises s @ [Pending],
           loadingRoutes := insert r (loadingRoutes s),
           pageRegisterEvents := (pageRegisterEvents s)(r := pageRegisterEvents s r @ [Fire (length (promises s)) r]),
           manifestWaiters := manifestWaiters s @ [LoadDeps r]\<rparr>
       else
         s\<lparr>promises := promises s @ [Pending],
           loadingRoutes := insert r (loadingRoutes s),
           pageRegisterEvents := (pageRegisterEvents s)(r := pageRegisterEvents s r @ [Fire (length (promises s)) r']),
           scripts := scripts s @ [Script (assetPrefix cfg @ ''/_next/static/pages'' @ encodeURI (getAssetPath r') @ ''.js'') (Some r') (modernBuild cfg \<and> hasNoModule cfg)]\<rparr>))"
  using assms by (simp add: loadPage_def Let_def on_def loadScript_def)

lemma loadPage_next:
  assumes "normalizeRoute r0 = Inr r" "pageCache s r = None" "r \<in> loadingRoutes s"
  shows "loadPage cfg r0 s = Inr (length (promises s),
         s\<lparr>promises := promises s @ [Pending],
           pageRegisterEvents := (pageRegisterEvents s)(r := pageRegisterEvents s r @ [Fire (length (promises s)) r])\<rparr>)"
  using assms by (simp add: loadPage_def Let_def on_def)

lemma loadPages_next:
  assumes "normalizeRoute r0 = Inr r"
  shows "pageCache s r = None \<Longrightarrow> r \<in> loadingRoutes s \<Longrightarrow>
    loadPages cfg r0 n s = Inr ([length (promises s)..<length (promises s) + n],
         s\<lparr>promises := promises s @ replicate n Pending,
           pageRegisterEvents := (pageRegisterEvents s)(r := pageRegisterEvents s r @
              map (\<lambda>p. Fire p r) [length (promises s)..<length (promises s) + n])\<rparr>)"
proof (induction n arbitrary: s)
  case 0
  then show ?case by simp
next
  case (Suc n)
  let ?s1 = "s\<lparr>promises := promises s @ [Pending],
           pageRegisterEvents := (pageRegisterEvents s)(r := pageRegisterEvents s r @ [Fire (length (promises s)) r])\<rparr>"
  have lp: "loadPage cfg r0 s = Inr (length (promises s), ?s1)"
    using assms Suc.prems by (rule loadPage_next)
  have c: "pageCache ?s1 r = None" and l: "r \<in> loadingRoutes ?s1" using Suc.prems by simp_all
  have up: "[length (promises s)..<Suc (length (promises s) + n)] =
      length (promises s) # [Suc (length (promises s))..<Suc (length (promises s) + n)]"
    by (simp add: upt_conv_Cons del: upt_Suc)
  show ?case
  proof -
    have f: "(\<lambda>a. if a = r then pageRegisterEvents s r @ Fire (length (promises s)) r #
                 map (\<lambda>p. Fire p r) [Suc (length (promises s))..<Suc (length (promises s) + n)]
               else if a = r then pageRegisterEvents s r @ [Fire (length (promises s)) r]
               else pageRegisterEvents s a) =
          (\<lambda>a. if a = r then pageRegisterEvents s r @ Fire (length (promises s)) r #
                 map (\<lambda>p. Fire p r) [Suc (length (promises s))..<Suc (length (promises s) + n)]
               else pageRegisterEvents s a)"
      by (rule ext) simp
    show ?thesis
      using Suc.IH [OF c l] lp by (simp add: up f del: upt_Suc)
  qed
qed

lemma loadPages_batch:
  assumes n0: "normalizeRoute r0 = Inr r" and n1: "normalizeRoute r = Inr r'"
    and c: "pageCache s r = None" and l: "r \<notin> loadingRoutes s"
  shows "\<exists>s'. loadPages cfg r0 (Suc m) s =
            Inr ([length (promises s)..<length (promises s) + Suc m], s') \<and>
          promises s' = promises s @ replicate (Suc m) Pending \<and>
          (\<forall>route. route \<noteq> r \<longrightarrow> pageRegisterEvents s' route = pageRegisterEvents s route) \<and>
          pageRegisterEvents s' r = pageRegisterEvents s r @
             Fire (length (promises s)) (if production cfg then r else r') #
             map (\<lambda>p. Fire p r) [Suc (length (promises s))..<length (promises s) + Suc m] \<and>
          manifestWaiters s' = manifestWaiters s @ (if production cfg then [LoadDeps r] else []) \<and>
          scripts s' = scripts s @
             (if production cfg then []
              else [Script (assetPrefix cfg @ ''/_next/static/pages'' @ encodeURI (getAssetPath r') @ ''.js'')
                      (Some r') (modernBuild cfg \<and> hasNoModule cfg)]) \<and>
          links s' = links s \<and> pageCache s' = pageCache s"
proof -
  obtain s1 where lp: "loadPage cfg r0 s = Inr (length (promises s), s1)"
    and s1: "s1 = (if production cfg then
         s\<lparr>promises := promises s @ [Pending],
           loadingRoutes := insert r (loadingRoutes s),
           pageRegisterEvents := (pageRegisterEvents s)(r := pageRegisterEvents s r @ [Fire (length (promises s)) r]),
           manifestWaiters := manifestWaiters s @ [LoadDeps r]\<rparr>
       else
         s\<lparr>promises := promises s @ [Pending],
           loadingRoutes := insert r (loadingRoutes s),
           pageRegisterEvents := (pageRegisterEvents s)(r := pageRegisterEvents s r @ [Fire (length (promises s)) r']),
           scripts := scripts s @ [Script (assetPrefix cfg @ ''/_next/static/pages'' @ encodeURI (getAssetPath r') @ ''.js'') (Some r') (modernBuild cfg \<and> hasNoModule cfg)]\<rparr>)"
    using loadPage_first [OF n0 n1 c l, of cfg] by blast
  have c1: "pageCache s1 r = None" using c s1 by simp
  have l1: "r \<in> loadingRoutes s1" using s1 by simp
  have len1: "length (promises s1) = Suc (length (promises s))" using s1 by simp
  let ?s' = "s1\<lparr>promises := promises s1 @ replicate m Pending,
           pageRegisterEvents := (pageRegisterEvents s1)(r := pageRegisterEvents s1 r @
              map (\<lambda>p. Fire p r) [length (promises s1)..<length (promises s1) + m])\<rparr>"
  have rest: "loadPages cfg r0 m s1 = Inr ([length (promises s1)..<length (promises s1) + m], ?s')"
    by (rule loadPages_next [OF n0 c1 l1])
  have up: "[length (promises s)..<Suc (length (promises s) + m)] =
      length (promises s) # [Suc (length (promises s))..<Suc (length (promises s) + m)]"
    by (simp add: upt_conv_Cons del: upt_Suc)
  have run: "loadPages cfg r0 (Suc m) s = Inr ([length (promises s)..<length (promises s) + Suc m], ?s')"
    using lp rest len1 by (simp add: up del: upt_Suc)
  have p: "promises ?s' = promises s @ replicate (Suc m) Pending"
    using s1 by (simp add: replicate_app_Cons_same)
  have e1: "\<forall>route. route \<noteq> r \<longrightarrow> pageRegisterEvents ?s' route = pageRegisterEvents s route"
    using s1 by simp
  have e2: "pageRegisterEvents ?s' r = pageRegisterEvents s r @
             Fire (length (promises s)) (if production cfg then r else r') #
             map (\<lambda>p. Fire p r) [Suc (length (promises s))..<length (promises s) + Suc m]"
    using s1 by (simp del: upt_Suc)
  have w: "manifestWaiters ?s' = manifestWaiters s @ (if production cfg then [LoadDeps r] else [])"
    using s1 by simp
  have sc: "scripts ?s' = scripts s @
             (if production cfg then []
              else [Script (assetPrefix cfg @ ''/_next/static/pages'' @ encodeURI (getAssetPath r') @ ''.js'')
                      (Some r') (modernBuild cfg \<and> hasNoModule cfg)])"
    using s1 by simp
  have lk: "links ?s' = links s" "pageCache ?s' = pageCache s" using s1 by simp_all
  show ?thesis using run p e1 e2 w sc lk by blast
qed

lemma batch_established:
  assumes wf: "wellFormed s" and n: "0 < n"
    and p: "promises s' = promises s @ replicate n Pending"
    and e1: "\<forall>route. route \<noteq> r \<longrightarrow> pageRegisterEvents s' route = pageRegisterEvents s route"
    and e2: "pageRegisterEvents s' r = pageRegisterEvents s r @ Fire (length (promises s)) f #
             map (\<lambda>p. Fire p r) [Suc (length (promises s))..<length (promises s) + n]"
  shows "batchInvariant r {length (promises s)..<length (promises s) + n} s'"
proof -
  let ?P = "{length (promises s)..<length (promises s) + n}"
  have 1: "\<forall>q \<in> ?P. q < length (promises s')" using p by simp
  have pend: "\<forall>q \<in> ?P. promises s' ! q = Pending" using p by (auto simp: nth_append)
  have old: "\<And>route h. h \<in> set (pageRegisterEvents s route) \<Longrightarrow> firePromise h < length (promises s)"
    using wf by (auto simp: wellFormed_def)
  have 2: "wellFormed s'" unfolding wellFormed_def
  proof (intro allI ballI)
    fix route h assume h: "h \<in> set (pageRegisterEvents s' route)"
    show "firePromise h < length (promises s')"
    proof (cases "route = r")
      case False
      then show ?thesis using h e1 old p by fastforce
    next
      case True
      then have "h \<in> set (pageRegisterEvents s r) \<or> firePromise h = length (promises s) \<or>
            firePromise h \<in> {Suc (length (promises s))..<length (promises s) + n}"
        using h e2 by auto
      then show ?thesis using old [of h r] p n by auto
    qed
  qed
  have 3: "\<forall>route. route \<noteq> r \<longrightarrow> (\<forall>h \<in> set (pageRegisterEvents s' route). firePromise h \<notin> ?P)"
    using e1 old by fastforce
  have 4: "\<forall>q \<in> ?P. \<exists>h \<in> set (pageRegisterEvents s' r). firePromise h = q"
  proof
    fix q assume q: "q \<in> ?P"
    show "\<exists>h \<in> set (pageRegisterEvents s' r). firePromise h = q"
    proof (cases "q = length (promises s)")
      case True
      then show ?thesis using e2 by auto
    next
      case False
      then have "q \<in> set [Suc (length (promises s))..<length (promises s) + n]" using q by auto
      then have "Fire q r \<in> set (pageRegisterEvents s' r)" unfolding e2 by (simp del: upt_Suc)
      then show ?thesis by force
    qed
  qed
  show ?thesis unfolding batchInvariant_def using 1 2 3 4 pend by blast
qed

text \<open>
  Calls in a row. From a state in which the route is neither cached nor being loaded,
  \<open>n\<close> calls of \<^verbatim>\<open>loadPage\<close> with nothing in between start one dependency lookup
  (production) or inject one script (development), and return \<open>n\<close> pending promises. Any
  event then broadcast for the route, a registration included, settles all of them with
  that event's outcome, and after any run of further events the promises of the batch
  are in the same state.
\<close>

theorem loadPage_concurrent_single_flight:
  assumes n0: "normalizeRoute route0 = Inr r" and c: "pageCache s r = None"
    and l: "r \<notin> loadingRoutes s" and wf: "wellFormed s" and n: "0 < n"
  shows "\<exists>s' r'. normalizeRoute r = Inr r' \<and>
     loadPages cfg route0 n s = Inr ([length (promises s)..<length (promises s) + n], s') \<and>
     manifestWaiters s' = manifestWaiters s @ (if production cfg then [LoadDeps r] else []) \<and>
     scripts s' = scripts s @
       (if production cfg then []
        else [Script (assetPrefix cfg @ ''/_next/static/pages'' @ encodeURI (getAssetPath r') @ ''.js'')
                (Some r') (modernBuild cfg \<and> hasNoModule cfg)]) \<and>
     links s' = links s \<and>
     (\<forall>p \<in> {length (promises s)..<length (promises s) + n}.
        promises s' ! p = Pending \<and>
        (\<forall>ev. promises (emit r ev s') ! p = outcomeOf ev) \<and>
        (\<forall>res. promises (register r res s') ! p = outcomeOf (pageDataOf res)) \<and>
        (\<forall>q \<in> {length (promises s)..<length (promises s) + n}. \<forall>evs.
           promises (run cfg utils evs s') ! p = promises (run cfg utils evs s') ! q))"
proof -
  let ?P = "{length (promises s)..<length (promises s) + n}"
  obtain m where m: "n = Suc m" using n by (cases n) auto
  obtain r' where n1: "normalizeRoute r = Inr r'" using normalizeRoute_again [OF n0] by blast
  obtain s' where run: "loadPages cfg route0 (Suc m) s =
            Inr ([length (promises s)..<length (promises s) + Suc m], s')"
     and p: "promises s' = promises s @ replicate (Suc m) Pending"
     and e1: "\<forall>route. route \<noteq> r \<longrightarrow> pageRegisterEvents s' route = pageRegisterEvents s route"
     and e2: "pageRegisterEvents s' r = pageRegisterEvents s r @
             Fire (length (promises s)) (if production cfg then r else r') #
             map (\<lambda>p. Fire p r) [Suc (length (promises s))..<length (promises s) + Suc m]"
     and w: "manifestWaiters s' = manifestWaiters s @ (if production cfg then [LoadDeps r] else [])"
     and sc: "scripts s' = scripts s @
             (if production cfg then []
              else [Script (assetPrefix cfg @ ''/_next/static/pages'' @ encodeURI (getAssetPath r') @ ''.js'')
                      (Some r') (modernBuild cfg \<and> hasNoModule cfg)])"
     and lk: "links s' = links s"
    using loadPages_batch [OF n0 n1 c l, of cfg m] by blast
  have inv: "batchInvariant r ?P s'"
    unfolding m by (rule batch_established [OF wf _ p e1 e2]) simp
  have len: "\<forall>p \<in> ?P. p < length (promises s')" and wf': "wellFormed s'"
    using inv by (auto simp: batchInvariant_def)
  have pend: "\<forall>p \<in> ?P. promises s' ! p = Pending"
    using p unfolding m by (auto simp: nth_append simp del: replicate.simps)
  have sub: "\<forall>p \<in> ?P. p \<in> firePromise ` set (pageRegisterEvents s' r)"
  proof
    fix p assume pP: "p \<in> ?P"
    have "\<exists>h \<in> set (pageRegisterEvents s' r). firePromise h = p"
      using inv pend pP outcome.distinct unfolding batchInvariant_def by metis
    then show "p \<in> firePromise ` set (pageRegisterEvents s' r)" by force
  qed
  have em: "\<forall>p \<in> ?P. \<forall>ev. promises (emit r ev s') ! p = outcomeOf ev"
    using len pend sub by (simp add: emit_promises)
  have reg: "\<forall>p \<in> ?P. \<forall>res. promises (register r res s') ! p = outcomeOf (pageDataOf res)"
    using len pend sub by (simp add: register_def Let_def emit_promises)
  have same: "\<forall>p \<in> ?P. \<forall>q \<in> ?P. \<forall>evs.
       promises (run cfg utils evs s') ! p = promises (run cfg utils evs s') ! q"
    using run_batchInvariant [OF inv] batchInvariant_same by blast
  show ?thesis
    using n1 run w sc lk pend em reg same unfolding m by blast
qed

theorem loadPage_concurrent_single_flight_witness:
  "wellFormed freshLoader \<and>
   (\<exists>s'. loadPages devConfig ''/about'' 2 freshLoader = Inr ([0, 1], s') \<and>
      links s' = [] \<and> manifestWaiters s' = [] \<and> length (scripts s') = 1 \<and>
      promises s' ! 0 = Pending \<and> promises s' ! 1 = Pending \<and>
      promises (register ''/about'' (Inr aboutModule) s') ! 0 =
        Resolved (DefaultExport ''About'') aboutModule \<and>
      promises (register ''/about'' (Inr aboutModule) s') ! 1 =
        Resolved (DefaultExport ''About'') aboutModule)"
proof -
  have n0: "normalizeRoute ''/about'' = Inr ''/about''"
    by (simp add: normalizeRoute_def stripTrailingSlash_def)
  have c: "pageCache freshLoader ''/about'' = None"
    by (simp add: freshLoader_def newPageLoader_def)
  have l: "''/about'' \<notin> loadingRoutes freshLoader"
    by (simp add: freshLoader_def newPageLoader_def)
  have wf: "wellFormed freshLoader"
    by (simp add: wellFormed_def freshLoader_def newPageLoader_def)
  have n: "0 < (2::nat)" by simp
  have p0: "promises freshLoader = []" "links freshLoader = []" "scripts freshLoader = []"
    "manifestWaiters freshLoader = []" "\<not> production devConfig"
    by (simp_all add: freshLoader_def newPageLoader_def devConfig_def)
  have o: "outcomeOf (pageDataOf (Inr aboutModule)) = Resolved (DefaultExport ''About'') aboutModule"
    by (simp add: outcomeOf_def pageDataOf_def pageOf_def aboutModule_def)
  have u: "[0..<2] = [0, Suc 0]" by (simp add: upt_conv_Cons)
  have b: "{0..<Suc (Suc 0)} = {0, Suc 0}" by auto
  show ?thesis
    using wf loadPage_concurrent_single_flight [OF n0 c l wf n, of devConfig specUtils]
    by (auto simp: p0 o u b)
qed

text \<open>
  Every state a freshly constructed loader can reach is well formed, so the hypothesis
  of the theorem above holds wherever the loader gets to.
\<close>

lemma wellFormed_run: "wellFormed s \<Longrightarrow> wellFormed (run cfg utils evs s)"
  using run_batchInvariant [of "[]" "{}" s cfg utils evs] by (simp add: batchInvariant_def)

lemma wellFormed_new: "wellFormed (newPageLoader initialPage doc lnk hot)"
  by (simp add: wellFormed_def newPageLoader_def)



subsection \<open>Calls with other events in between\<close>

lemma fire_loading: "loadingRoutes (fire h ev s) = loadingRoutes s - {fireRoute h}"
  by (simp add: fire_def off_def Let_def)

lemma foldl_fire_keyed:
  "\<forall>h \<in> set hs. fireRoute h = route \<Longrightarrow> pageRegisterEvents s route = hs \<Longrightarrow>
   pageRegisterEvents (foldl (\<lambda>s' h. fire h ev s') s hs) = (pageRegisterEvents s)(route := []) \<and>
   loadingRoutes (foldl (\<lambda>s' h. fire h ev s') s hs) =
     (if hs = [] then loadingRoutes s else loadingRoutes s - {route})"
proof (induction hs arbitrary: s)
  case Nil
  then show ?case by auto
next
  case (Cons h hs)
  have fr: "fireRoute h = route" using Cons.prems(1) by simp
  have e1: "pageRegisterEvents (fire h ev s) = (pageRegisterEvents s)(route := hs)"
    using Cons.prems(2) fr by (simp add: fire_events)
  have l1: "loadingRoutes (fire h ev s) = loadingRoutes s - {route}"
    using fr by (simp add: fire_loading)
  have ih: "pageRegisterEvents (foldl (\<lambda>s' h. fire h ev s') (fire h ev s) hs) =
              (pageRegisterEvents (fire h ev s))(route := []) \<and>
            loadingRoutes (foldl (\<lambda>s' h. fire h ev s') (fire h ev s) hs) =
              (if hs = [] then loadingRoutes (fire h ev s) else loadingRoutes (fire h ev s) - {route})"
  proof (rule Cons.IH)
    show "\<forall>h \<in> set hs. fireRoute h = route" using Cons.prems(1) by simp
    show "pageRegisterEvents (fire h ev s) route = hs" by (simp add: e1)
  qed
  have a: "pageRegisterEvents (foldl (\<lambda>s' h. fire h ev s') (fire h ev s) hs) =
      (pageRegisterEvents s)(route := [])"
    using ih by (simp only: e1 fun_upd_upd)
  have b: "loadingRoutes (foldl (\<lambda>s' h. fire h ev s') (fire h ev s) hs) = loadingRoutes s - {route}"
    using ih l1 by auto
  show ?case using a b by simp
qed

lemma emit_keyed:
  assumes "\<forall>h \<in> set (pageRegisterEvents s route). fireRoute h = route"
  shows "pageRegisterEvents (emit route ev s) = (pageRegisterEvents s)(route := [])"
    and "loadingRoutes (emit route ev s) =
     (if pageRegisterEvents s route = [] then loadingRoutes s else loadingRoutes s - {route})"
  using foldl_fire_keyed [OF assms refl, of ev] by (simp_all add: emit_def)

lemma emit_coherent:
  assumes "coherent s" shows "coherent (emit route ev s)"
proof -
  have k: "\<forall>h \<in> set (pageRegisterEvents s route). fireRoute h = route"
    using assms by (simp add: coherent_def)
  have wf: "wellFormed (emit route ev s)"
    using assms by (simp add: coherent_def emit_wellFormed)
  show ?thesis
    unfolding coherent_def
    using wf assms by (auto simp: emit_keyed [OF k] coherent_def)
qed

lemma coherent_frame:
  "coherent s \<Longrightarrow> promises s' = promises s \<Longrightarrow> pageRegisterEvents s' = pageRegisterEvents s \<Longrightarrow>
   loadingRoutes s' = loadingRoutes s \<Longrightarrow> coherent s'"
  by (simp add: coherent_def wellFormed_def)

lemma loadPage_wellFormed:
  assumes "loadPage cfg x s = Inr (p, s')" "wellFormed s" shows "wellFormed s'"
  using loadPage_batchInvariant [OF assms(1), of "[]" "{}"] assms(2)
  by (simp add: batchInvariant_def)

lemma loadPage_coherent:
  assumes lp: "loadPage cfg x s = Inr (p, s')" and co: "coherent s"
    and td: "production cfg \<or> normalizeTwice x = normalizeRoute x"
  shows "coherent s'"
proof -
  have wf: "wellFormed s'" using lp co by (auto simp: coherent_def intro: loadPage_wellFormed)
  obtain r where n: "normalizeRoute x = Inr r"
    using lp by (auto simp: loadPage_def split: sum.splits)
  have k: "\<forall>route. (\<forall>h \<in> set (pageRegisterEvents s route). fireRoute h = route) \<and>
               (pageRegisterEvents s route \<noteq> [] \<longrightarrow> route \<in> loadingRoutes s)"
    using co by (simp add: coherent_def)
  have n2: "\<not> production cfg \<Longrightarrow> normalizeRoute r = Inr r"
    using td n by (simp add: normalizeTwice_def)
  have "\<forall>route. (\<forall>h \<in> set (pageRegisterEvents s' route). fireRoute h = route) \<and>
               (pageRegisterEvents s' route \<noteq> [] \<longrightarrow> route \<in> loadingRoutes s')"
  proof (cases "pageCache s r")
    case (Some d)
    then have "pageRegisterEvents s' = pageRegisterEvents s" "loadingRoutes s' = loadingRoutes s"
      using lp n by (auto simp: loadPage_def Let_def)
    then show ?thesis using k by simp
  next
    case None
    show ?thesis
    proof (cases "r \<in> loadingRoutes s")
      case True
      then have "s' = on r (Fire p r) (s\<lparr>promises := promises s @ [Pending]\<rparr>)"
        using lp n None by (auto simp: loadPage_def Let_def)
      then show ?thesis using k True by (auto simp: on_def)
    next
      case False
      show ?thesis
      proof (cases "production cfg")
        case True
        then have "s' = (on r (Fire p r) (s\<lparr>promises := promises s @ [Pending],
               loadingRoutes := insert r (loadingRoutes s)\<rparr>))
              \<lparr>manifestWaiters := manifestWaiters s @ [LoadDeps r]\<rparr>"
          using lp n None False by (auto simp: loadPage_def Let_def)
        then show ?thesis using k by (auto simp: on_def)
      next
        case dev: False
        then have "s' = loadScript cfg (assetPrefix cfg @ ''/_next/static/pages'' @
                    encodeURI (getAssetPath r) @ ''.js'') r
              (on r (Fire p r) (s\<lparr>promises := promises s @ [Pending],
               loadingRoutes := insert r (loadingRoutes s)\<rparr>))"
          using lp n None False n2 by (auto simp: loadPage_def Let_def)
        then show ?thesis using k by (auto simp: on_def loadScript_def)
      qed
    qed
  qed
  then show ?thesis using wf by (simp add: coherent_def)
qed

lemma inFlight_frame:
  assumes "inFlight r p s" "promises s' = promises s"
    "pageRegisterEvents s' = pageRegisterEvents s" "loadingRoutes s' = loadingRoutes s"
    "pageCache s' = pageCache s"
  shows "inFlight r p s'"
proof -
  have "coherent s'" using assms by (auto simp: inFlight_def intro: coherent_frame)
  then show ?thesis using assms by (simp add: inFlight_def)
qed

lemma emit_inFlight_cache:
  assumes co: "coherent s" and len: "p < length (promises s)"
    and own: "\<forall>route. \<forall>h \<in> set (pageRegisterEvents s route). firePromise h = p \<longrightarrow> route = r"
    and pend: "promises s ! p = Pending \<longrightarrow> (\<exists>h \<in> set (pageRegisterEvents s r). firePromise h = p)"
    and cache: "promises s ! p = Pending \<longrightarrow> route \<noteq> r \<longrightarrow> pageCache s r = None"
  shows "inFlight r p (emit route ev s)"
proof -
  let ?t = "emit route ev s"
  have k: "\<forall>h \<in> set (pageRegisterEvents s route). fireRoute h = route"
    using co by (simp add: coherent_def)
  have ev: "pageRegisterEvents ?t = (pageRegisterEvents s)(route := [])"
    by (rule emit_keyed(1) [OF k])
  have 1: "coherent ?t" using co by (rule emit_coherent)
  have 2: "p < length (promises ?t)" using len by (simp add: emit_frame)
  have 3: "\<forall>route'. \<forall>h \<in> set (pageRegisterEvents ?t route'). firePromise h = p \<longrightarrow> route' = r"
    using own by (auto simp: ev)
  have 4: "promises ?t ! p = Pending \<longrightarrow>
         pageCache ?t r = None \<and> (\<exists>h \<in> set (pageRegisterEvents ?t r). firePromise h = p)"
  proof
    assume after: "promises ?t ! p = Pending"
    have before: "promises s ! p = Pending"
      using after outcomeOf_not_Pending [of ev] by (auto simp: emit_promises split: if_splits)
    then obtain h where h: "h \<in> set (pageRegisterEvents s r)" "firePromise h = p"
      using pend by blast
    have ne: "route \<noteq> r"
    proof
      assume "route = r"
      then have "promises ?t ! p = outcomeOf ev"
        using before len h by (auto simp: emit_promises)
      then show False using after outcomeOf_not_Pending [of ev] by simp
    qed
    have "pageCache ?t r = None" using cache before ne by (simp add: emit_frame)
    moreover have "h \<in> set (pageRegisterEvents ?t r)" using h ne by (simp add: ev)
    ultimately show "pageCache ?t r = None \<and> (\<exists>h \<in> set (pageRegisterEvents ?t r). firePromise h = p)"
      using h by blast
  qed
  show ?thesis unfolding inFlight_def using 1 2 3 4 by blast
qed

lemma emit_inFlight: "inFlight r p s \<Longrightarrow> inFlight r p (emit route ev s)"
  by (rule emit_inFlight_cache) (auto simp: inFlight_def)

lemma register_inFlight:
  assumes "inFlight r p s" shows "inFlight r p (register x res s)"
proof -
  let ?s = "s\<lparr>pageCache := (pageCache s)(x \<mapsto> pageDataOf res)\<rparr>"
  have co: "coherent ?s"
    using assms by (auto simp: inFlight_def intro: coherent_frame)
  have "inFlight r p (emit x (pageDataOf res) ?s)"
  proof (rule emit_inFlight_cache [OF co])
    show "p < length (promises ?s)" using assms by (simp add: inFlight_def)
    show "\<forall>route. \<forall>h \<in> set (pageRegisterEvents ?s route). firePromise h = p \<longrightarrow> route = r"
      using assms by (simp add: inFlight_def)
    show "promises ?s ! p = Pending \<longrightarrow> (\<exists>h \<in> set (pageRegisterEvents ?s r). firePromise h = p)"
      using assms by (simp add: inFlight_def)
    show "promises ?s ! p = Pending \<longrightarrow> x \<noteq> r \<longrightarrow> pageCache ?s r = None"
      using assms by (simp add: inFlight_def)
  qed
  then show ?thesis by (simp add: register_def Let_def)
qed

lemma loadPage_inFlight:
  assumes lp: "loadPage cfg x s = Inr (q, s')" and inv: "inFlight r p s"
    and td: "production cfg \<or> normalizeTwice x = normalizeRoute x"
  shows "inFlight r p s'"
proof -
  note sh = loadPage_promises [OF lp]
  have co: "coherent s" and len: "p < length (promises s)"
    and own: "\<forall>route. \<forall>h \<in> set (pageRegisterEvents s route). firePromise h = p \<longrightarrow> route = r"
    and pend: "promises s ! p = Pending \<longrightarrow>
         pageCache s r = None \<and> (\<exists>h \<in> set (pageRegisterEvents s r). firePromise h = p)"
    using inv by (auto simp: inFlight_def)
  have 1: "coherent s'" by (rule loadPage_coherent [OF lp co td])
  have 2: "p < length (promises s')" using len sh by simp
  have same: "promises s' ! p = promises s ! p" using len sh by simp
  have 3: "\<forall>route. \<forall>h \<in> set (pageRegisterEvents s' route). firePromise h = p \<longrightarrow> route = r"
  proof (intro allI ballI impI)
    fix route h assume h: "h \<in> set (pageRegisterEvents s' route)" and fp: "firePromise h = p"
    from loadPage_events_sub [OF lp h] have "h \<in> set (pageRegisterEvents s route)"
      using fp len sh by auto
    then show "route = r" using own fp by blast
  qed
  have 4: "promises s' ! p = Pending \<longrightarrow>
         pageCache s' r = None \<and> (\<exists>h \<in> set (pageRegisterEvents s' r). firePromise h = p)"
  proof
    assume "promises s' ! p = Pending"
    then have b: "promises s ! p = Pending" using same by simp
    then obtain h where h: "h \<in> set (pageRegisterEvents s r)" "firePromise h = p"
      using pend by blast
    have "h \<in> set (pageRegisterEvents s' r)" by (rule loadPage_events_sup [OF lp h(1)])
    moreover have "pageCache s' r = None" using loadPage_cache [OF lp] pend b by simp
    ultimately show "pageCache s' r = None \<and> (\<exists>h \<in> set (pageRegisterEvents s' r). firePromise h = p)"
      using h by blast
  qed
  show ?thesis unfolding inFlight_def using 1 2 3 4 by blast
qed

lemma injectDependency_loading: "loadingRoutes (injectDependency cfg r s d) = loadingRoutes s"
  by (simp add: injectDependency_def Let_def loadScript_def appendLink_def)

lemma foldl_inject_loading: "loadingRoutes (foldl (injectDependency cfg r) s ds) = loadingRoutes s"
  by (induction ds arbitrary: s) (simp_all add: injectDependency_loading)

lemma prefetch_loading: "prefetch cfg r d s = Inr s' \<Longrightarrow> loadingRoutes s' = loadingRoutes s"
  by (auto simp: prefetch_def Let_def appendLink_def split: if_splits sum.splits option.splits)

lemma prefetchEach_loading: "loadingRoutes (prefetchEach cfg us s) = loadingRoutes s"
  by (induction us arbitrary: s) (auto dest: prefetch_loading split: sum.splits)

lemma prefetchData_loading:
  "prefetchData cfg u h q a s = Inr s' \<Longrightarrow> loadingRoutes s' = loadingRoutes s"
  by (auto simp: prefetchData_def appendLink_def split: if_splits sum.splits)

lemma run_preserves:
  assumes frame: "\<And>s s'. Q s \<Longrightarrow> promises s' = promises s \<Longrightarrow>
        pageRegisterEvents s' = pageRegisterEvents s \<Longrightarrow> loadingRoutes s' = loadingRoutes s \<Longrightarrow>
        pageCache s' = pageCache s \<Longrightarrow> Q s'"
    and em: "\<And>s route ev. Q s \<Longrightarrow> Q (emit route ev s)"
    and reg: "\<And>s x res. Q s \<Longrightarrow> Q (register x res s)"
    and lp: "\<And>s x q s'. Q s \<Longrightarrow> loadPage cfg x s = Inr (q, s') \<Longrightarrow>
        production cfg \<or> normalizeTwice x = normalizeRoute x \<Longrightarrow> Q s'"
  shows "Q s \<Longrightarrow> \<forall>ev \<in> set evs. tidy cfg ev \<Longrightarrow> Q (run cfg utils evs s)"
proof -
  have registerPage: "Q (registerPage cfg x res s)" if q: "Q s" for s x res
  proof -
    have "Q (s\<lparr>hotHandlers := hotHandlers s @ [(x, res)]\<rparr>)"
      by (rule frame [OF q]) simp_all
    then show ?thesis using reg [OF q] by (simp add: registerPage_def)
  qed
  have scriptError: "Q (scriptError i s)" if q: "Q s" for s i
    using q by (simp add: scriptError_def em split: option.splits)
  have hotCheck: "Q (hotCheck i st s)" if q: "Q s" for s i st
  proof (cases "i < length (hotHandlers s) \<and> st = ''idle''")
    case False
    then show ?thesis using q by (auto simp: hotCheck_def)
  next
    case True
    obtain x res where h: "hotHandlers s ! i = (x, res)" by (cases "hotHandlers s ! i")
    have "Q (s\<lparr>hotHandlers := take i (hotHandlers s) @ drop (Suc i) (hotHandlers s)\<rparr>)"
      by (rule frame [OF q]) simp_all
    then have "Q (register x res
         (s\<lparr>hotHandlers := take i (hotHandlers s) @ drop (Suc i) (hotHandlers s)\<rparr>))"
      by (rule reg)
    then show ?thesis using True h by (simp add: hotCheck_def)
  qed
  have getDeps: "Q s'" if g: "getDependencies cfg x s = Inr (ds, s')" and q: "Q s" for s x ds s'
  proof (cases "buildManifest cfg x")
    case None
    then have "s' = emit x (Failed (pageLoadError x)) s"
      using g by (simp add: getDependencies_def split: if_splits)
    then show ?thesis using em [OF q] by simp
  next
    case (Some urls)
    then have "s' = s" using g by (simp add: getDependencies_def split: if_splits)
    then show ?thesis using q by simp
  qed
  have loadDeps: "Q (loadDependencies cfg x s)" if q: "Q s" for s x
  proof (cases "getDependencies cfg x s")
    case (Inl e)
    then show ?thesis using q by (simp add: loadDependencies_def)
  next
    case (Inr v)
    obtain ds s' where v: "v = (ds, s')" by (cases v)
    have g: "getDependencies cfg x s = Inr (ds, s')" using Inr v by simp
    have "Q s'" by (rule getDeps [OF g q])
    then have "Q (foldl (injectDependency cfg x) s' ds)"
      by (rule frame)
         (simp_all add: foldl_inject_pe foldl_inject_loading foldl_inject_cache)
    then show ?thesis using g by (simp add: loadDependencies_def)
  qed
  have prefetchDeps: "Q (prefetchDependencies cfg x s)" if q: "Q s" for s x
  proof (cases "getDependencies cfg x s")
    case (Inl e)
    then show ?thesis using q by (simp add: prefetchDependencies_def)
  next
    case (Inr v)
    obtain ds s' where v: "v = (ds, s')" by (cases v)
    have g: "getDependencies cfg x s = Inr (ds, s')" using Inr v by simp
    have "Q s'" by (rule getDeps [OF g q])
    then have "Q (prefetchEach cfg ds s')"
      by (rule frame)
         (simp_all add: prefetchEach_pe prefetchEach_loading prefetchEach_cache)
    then show ?thesis using g by (simp add: prefetchDependencies_def)
  qed
  have manifestReady: "Q (manifestReady cfg s)" if q: "Q s" for s
  proof (cases "manifestWaiters s")
    case Nil
    then show ?thesis using q by (simp add: manifestReady_def)
  next
    case (Cons t ts)
    have q': "Q (s\<lparr>manifestWaiters := ts\<rparr>)"
      by (rule frame [OF q]) simp_all
    show ?thesis
    proof (cases t)
      case (LoadDeps x)
      then show ?thesis using Cons loadDeps [OF q'] by (simp add: manifestReady_def)
    next
      case (PrefetchDeps x)
      then show ?thesis using Cons prefetchDeps [OF q'] by (simp add: manifestReady_def)
    qed
  qed
  have loadPageStep: "Q (case loadPage cfg x s of Inl e \<Rightarrow> s | Inr (q, s') \<Rightarrow> s')"
    if q: "Q s" and td: "production cfg \<or> normalizeTwice x = normalizeRoute x" for s x
  proof (cases "loadPage cfg x s")
    case (Inl e)
    then show ?thesis using q by simp
  next
    case (Inr v)
    obtain p s' where v: "v = (p, s')" by (cases v)
    have l: "loadPage cfg x s = Inr (p, s')" using Inr v by simp
    have "Q s'" by (rule lp [OF q l td])
    then show ?thesis using l by simp
  qed
  have prefetchStep: "Q (case prefetch cfg x d s of Inl e \<Rightarrow> s | Inr s' \<Rightarrow> s')"
    if q: "Q s" for s x d
  proof (cases "prefetch cfg x d s")
    case (Inl e)
    then show ?thesis using q by simp
  next
    case (Inr s')
    have "Q s'"
      using prefetch_pe [OF Inr] prefetch_loading [OF Inr] prefetch_cache [OF Inr]
      by (intro frame [OF q]) simp_all
    then show ?thesis using Inr by simp
  qed
  have prefetchDataStep:
    "Q (case prefetchData cfg utils h qu a s of Inl e \<Rightarrow> s | Inr s' \<Rightarrow> s')"
    if q: "Q s" for s h qu a
  proof (cases "prefetchData cfg utils h qu a s")
    case (Inl e)
    then show ?thesis using q by simp
  next
    case (Inr s')
    have "Q s'"
      using prefetchData_pe [OF Inr] prefetchData_loading [OF Inr] prefetchData_cache [OF Inr]
      by (intro frame [OF q]) simp_all
    then show ?thesis using Inr by simp
  qed
  have step: "Q (step cfg utils s ev)" if q: "Q s" and td: "tidy cfg ev" for s ev
  proof (cases ev)
    case (LoadPage x)
    then have "production cfg \<or> normalizeTwice x = normalizeRoute x"
      using td by (simp add: tidy_def)
    then show ?thesis using LoadPage loadPageStep [OF q] by (simp add: step_def)
  next
    case (RegisterPage x res)
    then show ?thesis using registerPage [OF q] by (simp add: step_def)
  next
    case (ScriptError i)
    then show ?thesis using scriptError [OF q] by (simp add: step_def)
  next
    case ManifestReady
    then show ?thesis using manifestReady [OF q] by (simp add: step_def)
  next
    case (HotStatus st)
    have "Q (s\<lparr>hotStatus := Some st\<rparr>)"
      by (rule frame [OF q]) simp_all
    then show ?thesis using HotStatus by (simp add: step_def)
  next
    case (HotCheck i st)
    then show ?thesis using hotCheck [OF q] by (simp add: step_def)
  next
    case (Prefetch x d)
    then show ?thesis using prefetchStep [OF q] by (simp add: step_def)
  next
    case (PrefetchData h qu a)
    then show ?thesis using prefetchDataStep [OF q] by (simp add: step_def)
  qed
  show "Q s \<Longrightarrow> \<forall>ev \<in> set evs. tidy cfg ev \<Longrightarrow> Q (run cfg utils evs s)"
    unfolding run_def by (induction evs arbitrary: s) (simp_all add: step)
qed

lemma register_coherent:
  assumes "coherent s" shows "coherent (register x res s)"
proof -
  have "coherent (s\<lparr>pageCache := (pageCache s)(x \<mapsto> pageDataOf res)\<rparr>)"
    by (rule coherent_frame [OF assms]) simp_all
  then show ?thesis by (simp add: register_def Let_def emit_coherent)
qed

lemma run_coherent:
  assumes "coherent s" "\<forall>ev \<in> set evs. tidy cfg ev"
  shows "coherent (run cfg utils evs s)"
proof (rule run_preserves [where Q = coherent, OF _ _ _ _ assms])
  show "\<And>s s'. coherent s \<Longrightarrow> promises s' = promises s \<Longrightarrow>
        pageRegisterEvents s' = pageRegisterEvents s \<Longrightarrow> loadingRoutes s' = loadingRoutes s \<Longrightarrow>
        pageCache s' = pageCache s \<Longrightarrow> coherent s'"
    by (rule coherent_frame)
  show "\<And>s route ev. coherent s \<Longrightarrow> coherent (emit route ev s)" by (rule emit_coherent)
  show "\<And>s x res. coherent s \<Longrightarrow> coherent (register x res s)" by (rule register_coherent)
  show "\<And>s x q s'. coherent s \<Longrightarrow> loadPage cfg x s = Inr (q, s') \<Longrightarrow>
        production cfg \<or> normalizeTwice x = normalizeRoute x \<Longrightarrow> coherent s'"
    using loadPage_coherent by blast
qed

lemma run_inFlight:
  assumes "inFlight r p s" "\<forall>ev \<in> set evs. tidy cfg ev"
  shows "inFlight r p (run cfg utils evs s)"
proof (rule run_preserves [where Q = "inFlight r p", OF _ _ _ _ assms])
  show "\<And>s s'. inFlight r p s \<Longrightarrow> promises s' = promises s \<Longrightarrow>
        pageRegisterEvents s' = pageRegisterEvents s \<Longrightarrow> loadingRoutes s' = loadingRoutes s \<Longrightarrow>
        pageCache s' = pageCache s \<Longrightarrow> inFlight r p s'"
    by (rule inFlight_frame)
  show "\<And>s route ev. inFlight r p s \<Longrightarrow> inFlight r p (emit route ev s)"
    by (rule emit_inFlight)
  show "\<And>s x res. inFlight r p s \<Longrightarrow> inFlight r p (register x res s)"
    by (rule register_inFlight)
  show "\<And>s x q s'. inFlight r p s \<Longrightarrow> loadPage cfg x s = Inr (q, s') \<Longrightarrow>
        production cfg \<or> normalizeTwice x = normalizeRoute x \<Longrightarrow> inFlight r p s'"
    using loadPage_inFlight by blast
qed

lemma coherent_new: "coherent (newPageLoader initialPage doc lnk hot)"
  by (simp add: coherent_def wellFormed_def newPageLoader_def)

lemma first_call_shape:
  assumes n0: "normalizeRoute route0 = Inr r"
    and td: "production cfg \<or> normalizeTwice route0 = normalizeRoute route0"
    and c: "pageCache s r = None" and l: "r \<notin> loadingRoutes s"
  shows "\<exists>s1. loadPage cfg route0 s = Inr (length (promises s), s1) \<and>
          promises s1 = promises s @ [Pending] \<and>
          (\<forall>route. route \<noteq> r \<longrightarrow> pageRegisterEvents s1 route = pageRegisterEvents s route) \<and>
          pageRegisterEvents s1 r = pageRegisterEvents s r @ [Fire (length (promises s)) r] \<and>
          pageCache s1 = pageCache s \<and>
          manifestWaiters s1 = manifestWaiters s @ (if production cfg then [LoadDeps r] else []) \<and>
          scripts s1 = scripts s @
            (if production cfg then []
             else [Script (assetPrefix cfg @ ''/_next/static/pages'' @ encodeURI (getAssetPath r) @ ''.js'')
                     (Some r) (modernBuild cfg \<and> hasNoModule cfg)]) \<and>
          links s1 = links s"
proof (cases "production cfg")
  case True
  let ?s1 = "s\<lparr>promises := promises s @ [Pending],
           loadingRoutes := insert r (loadingRoutes s),
           pageRegisterEvents := (pageRegisterEvents s)(r := pageRegisterEvents s r @ [Fire (length (promises s)) r]),
           manifestWaiters := manifestWaiters s @ [LoadDeps r]\<rparr>"
  have lp: "loadPage cfg route0 s = Inr (length (promises s), ?s1)"
    using n0 c l True by (simp add: loadPage_def Let_def on_def)
  show ?thesis
    apply (rule exI [of _ ?s1])
    using lp True by simp
next
  case False
  then have n1: "normalizeRoute r = Inr r" using td n0 by (simp add: normalizeTwice_def)
  let ?s1 = "s\<lparr>promises := promises s @ [Pending],
           loadingRoutes := insert r (loadingRoutes s),
           pageRegisterEvents := (pageRegisterEvents s)(r := pageRegisterEvents s r @ [Fire (length (promises s)) r]),
           scripts := scripts s @ [Script (assetPrefix cfg @ ''/_next/static/pages'' @ encodeURI (getAssetPath r) @ ''.js'') (Some r) (modernBuild cfg \<and> hasNoModule cfg)]\<rparr>"
  have lp: "loadPage cfg route0 s = Inr (length (promises s), ?s1)"
    using n0 n1 c l False by (simp add: loadPage_def Let_def on_def loadScript_def)
  show ?thesis
    apply (rule exI [of _ ?s1])
    using lp False by simp
qed

lemma first_call_inFlight:
  assumes co: "coherent s" and n0: "normalizeRoute route0 = Inr r"
    and td: "production cfg \<or> normalizeTwice route0 = normalizeRoute route0"
    and c: "pageCache s r = None" and l: "r \<notin> loadingRoutes s"
  shows "\<exists>s1. loadPage cfg route0 s = Inr (length (promises s), s1) \<and>
          inFlight r (length (promises s)) s1 \<and>
          manifestWaiters s1 = manifestWaiters s @ (if production cfg then [LoadDeps r] else []) \<and>
          scripts s1 = scripts s @
            (if production cfg then []
             else [Script (assetPrefix cfg @ ''/_next/static/pages'' @ encodeURI (getAssetPath r) @ ''.js'')
                     (Some r) (modernBuild cfg \<and> hasNoModule cfg)]) \<and>
          links s1 = links s"
proof -
  let ?p = "length (promises s)"
  obtain s1 where lp: "loadPage cfg route0 s = Inr (?p, s1)"
    and pr: "promises s1 = promises s @ [Pending]"
    and evo: "\<forall>route. route \<noteq> r \<longrightarrow> pageRegisterEvents s1 route = pageRegisterEvents s route"
    and evr: "pageRegisterEvents s1 r = pageRegisterEvents s r @ [Fire ?p r]"
    and ca: "pageCache s1 = pageCache s"
    and w: "manifestWaiters s1 = manifestWaiters s @ (if production cfg then [LoadDeps r] else [])"
    and sc: "scripts s1 = scripts s @
            (if production cfg then []
             else [Script (assetPrefix cfg @ ''/_next/static/pages'' @ encodeURI (getAssetPath r) @ ''.js'')
                     (Some r) (modernBuild cfg \<and> hasNoModule cfg)])"
    and lk: "links s1 = links s"
    using first_call_shape [OF n0 td c l] by blast
  have co1: "coherent s1" by (rule loadPage_coherent [OF lp co td])
  have old: "\<And>route h. h \<in> set (pageRegisterEvents s route) \<Longrightarrow> firePromise h < ?p"
    using co by (auto simp: coherent_def wellFormed_def)
  have own: "\<forall>route. \<forall>h \<in> set (pageRegisterEvents s1 route). firePromise h = ?p \<longrightarrow> route = r"
  proof (intro allI ballI impI)
    fix route h assume h: "h \<in> set (pageRegisterEvents s1 route)" and fp: "firePromise h = ?p"
    show "route = r"
    proof (rule ccontr)
      assume "route \<noteq> r"
      then have "h \<in> set (pageRegisterEvents s route)" using h evo by simp
      then have "firePromise h < ?p" by (rule old)
      then show False using fp by simp
    qed
  qed
  have len: "?p < length (promises s1)" by (simp add: pr)
  have hd: "\<exists>h \<in> set (pageRegisterEvents s1 r). firePromise h = ?p" by (simp add: evr)
  have c1: "pageCache s1 r = None" using c ca by simp
  have inf: "inFlight r ?p s1"
    unfolding inFlight_def using co1 len own hd c1 by blast
  show ?thesis using lp inf w sc lk by blast
qed

lemma later_call_joins:
  assumes inf: "inFlight r p0 t" and pend: "promises t ! p0 = Pending"
    and n1: "normalizeRoute route1 = Inr r"
    and t': "t' = t\<lparr>promises := promises t @ [Pending],
           pageRegisterEvents := (pageRegisterEvents t)(r := pageRegisterEvents t r @
              [Fire (length (promises t)) r])\<rparr>"
  shows "loadPage cfg route1 t = Inr (length (promises t), t')"
    and "promises (emit r ev t') ! p0 = outcomeOf ev"
    and "promises (emit r ev t') ! length (promises t) = outcomeOf ev"
    and "promises (run cfg utils evs2 t') ! p0 =
         promises (run cfg utils evs2 t') ! length (promises t)"
proof -
  let ?p = "length (promises t)"
  have co: "coherent t" and len: "p0 < ?p"
    and own: "\<forall>route. \<forall>h \<in> set (pageRegisterEvents t route). firePromise h = p0 \<longrightarrow> route = r"
    and c: "pageCache t r = None"
    and hd: "\<exists>h \<in> set (pageRegisterEvents t r). firePromise h = p0"
    using inf pend by (auto simp: inFlight_def)
  have wf: "wellFormed t" using co by (simp add: coherent_def)
  have ne: "pageRegisterEvents t r \<noteq> []" using hd by auto
  then have l: "r \<in> loadingRoutes t" using co by (simp add: coherent_def)
  show lp: "loadPage cfg route1 t = Inr (?p, t')"
    unfolding t' by (rule loadPage_next [OF n1 c l])
  have pr: "promises t' = promises t @ [Pending]" by (simp add: t')
  have evr: "pageRegisterEvents t' r = pageRegisterEvents t r @ [Fire ?p r]" by (simp add: t')
  have evo: "\<And>route. route \<noteq> r \<Longrightarrow> pageRegisterEvents t' route = pageRegisterEvents t route"
    by (simp add: t')
  have p0: "p0 < length (promises t')" "promises t' ! p0 = Pending"
    "p0 \<in> firePromise ` set (pageRegisterEvents t' r)"
    using len pend hd by (auto simp: pr evr nth_append)
  have p1: "?p < length (promises t')" "promises t' ! ?p = Pending"
    "?p \<in> firePromise ` set (pageRegisterEvents t' r)"
    by (auto simp: pr evr nth_append)
  show "promises (emit r ev t') ! p0 = outcomeOf ev" using p0 by (simp add: emit_promises)
  show "promises (emit r ev t') ! ?p = outcomeOf ev" using p1 by (simp add: emit_promises)
  have wf': "wellFormed t'" by (rule loadPage_wellFormed [OF lp wf])
  have o3: "\<forall>route. route \<noteq> r \<longrightarrow>
       (\<forall>h \<in> set (pageRegisterEvents t' route). firePromise h \<notin> {p0, ?p})"
  proof (intro allI impI ballI)
    fix route h assume r: "route \<noteq> r" and h: "h \<in> set (pageRegisterEvents t' route)"
    have h': "h \<in> set (pageRegisterEvents t route)" using h r by (simp add: evo)
    have "firePromise h < ?p" using wf h' by (auto simp: wellFormed_def)
    moreover have "firePromise h \<noteq> p0" using own h' r by blast
    ultimately show "firePromise h \<notin> {p0, ?p}" by simp
  qed
  have o4: "\<forall>q \<in> {p0, ?p}. promises t' ! q = Pending \<and>
       (\<exists>h \<in> set (pageRegisterEvents t' r). firePromise h = q)"
    using p0 p1 by auto
  have o1: "\<forall>q \<in> {p0, ?p}. q < length (promises t')" using p0 p1 by simp
  have inv: "batchInvariant r {p0, ?p} t'"
    unfolding batchInvariant_def using o1 wf' o3 o4 by blast
  show "promises (run cfg utils evs2 t') ! p0 = promises (run cfg utils evs2 t') ! ?p"
    using batchInvariant_same [OF run_batchInvariant [OF inv]] by simp
qed

text \<open>
  With events in between. In production, and in development as long as no route passed
  to \<^verbatim>\<open>loadPage\<close> ends in two slashes, a first \<^verbatim>\<open>loadPage\<close> of a route that is neither
  cached nor being loaded starts one dependency lookup or injects one script; after any
  such run of events, while its promise is pending, another \<^verbatim>\<open>loadPage\<close> with the same
  key only subscribes (no script, no link, no lookup), the next event broadcast for the
  key settles both promises with its outcome, and after any further events the two are
  in the same state. A freshly constructed loader is coherent and stays so on such runs.
\<close>

theorem loadPage_single_flight_interleaved:
  assumes co: "coherent s" and n0: "normalizeRoute route0 = Inr r"
    and td: "production cfg \<or> normalizeTwice route0 = normalizeRoute route0"
    and c: "pageCache s r = None" and l: "r \<notin> loadingRoutes s"
    and n1: "normalizeRoute route1 = Inr r"
  shows "\<exists>s1. loadPage cfg route0 s = Inr (length (promises s), s1) \<and>
     manifestWaiters s1 = manifestWaiters s @ (if production cfg then [LoadDeps r] else []) \<and>
     scripts s1 = scripts s @
       (if production cfg then []
        else [Script (assetPrefix cfg @ ''/_next/static/pages'' @ encodeURI (getAssetPath r) @ ''.js'')
                (Some r) (modernBuild cfg \<and> hasNoModule cfg)]) \<and>
     links s1 = links s \<and>
     (\<forall>evs. (\<forall>ev \<in> set evs. tidy cfg ev) \<longrightarrow>
        promises (run cfg utils evs s1) ! length (promises s) = Pending \<longrightarrow>
        (\<exists>t'. loadPage cfg route1 (run cfg utils evs s1) =
                 Inr (length (promises (run cfg utils evs s1)), t') \<and>
              scripts t' = scripts (run cfg utils evs s1) \<and>
              manifestWaiters t' = manifestWaiters (run cfg utils evs s1) \<and>
              links t' = links (run cfg utils evs s1) \<and>
              (\<forall>ev. promises (emit r ev t') ! length (promises s) = outcomeOf ev \<and>
                    promises (emit r ev t') ! length (promises (run cfg utils evs s1)) =
                      outcomeOf ev) \<and>
              (\<forall>evs2. promises (run cfg utils evs2 t') ! length (promises s) =
                      promises (run cfg utils evs2 t') !
                        length (promises (run cfg utils evs s1)))))"
proof -
  obtain s1 where lp: "loadPage cfg route0 s = Inr (length (promises s), s1)"
    and inf: "inFlight r (length (promises s)) s1"
    and w: "manifestWaiters s1 = manifestWaiters s @ (if production cfg then [LoadDeps r] else [])"
    and sc: "scripts s1 = scripts s @
            (if production cfg then []
             else [Script (assetPrefix cfg @ ''/_next/static/pages'' @ encodeURI (getAssetPath r) @ ''.js'')
                     (Some r) (modernBuild cfg \<and> hasNoModule cfg)])"
    and lk: "links s1 = links s"
    using first_call_inFlight [OF co n0 td c l] by blast
  have later: "\<forall>evs. (\<forall>ev \<in> set evs. tidy cfg ev) \<longrightarrow>
        promises (run cfg utils evs s1) ! length (promises s) = Pending \<longrightarrow>
        (\<exists>t'. loadPage cfg route1 (run cfg utils evs s1) =
                 Inr (length (promises (run cfg utils evs s1)), t') \<and>
              scripts t' = scripts (run cfg utils evs s1) \<and>
              manifestWaiters t' = manifestWaiters (run cfg utils evs s1) \<and>
              links t' = links (run cfg utils evs s1) \<and>
              (\<forall>ev. promises (emit r ev t') ! length (promises s) = outcomeOf ev \<and>
                    promises (emit r ev t') ! length (promises (run cfg utils evs s1)) =
                      outcomeOf ev) \<and>
              (\<forall>evs2. promises (run cfg utils evs2 t') ! length (promises s) =
                      promises (run cfg utils evs2 t') !
                        length (promises (run cfg utils evs s1))))"
  proof (intro allI impI)
    fix evs
    assume tidy: "\<forall>ev \<in> set evs. tidy cfg ev"
      and pend: "promises (run cfg utils evs s1) ! length (promises s) = Pending"
    let ?t = "run cfg utils evs s1"
    let ?t' = "?t\<lparr>promises := promises ?t @ [Pending],
           pageRegisterEvents := (pageRegisterEvents ?t)(r := pageRegisterEvents ?t r @
              [Fire (length (promises ?t)) r])\<rparr>"
    have inft: "inFlight r (length (promises s)) ?t" by (rule run_inFlight [OF inf tidy])
    note j = later_call_joins [OF inft pend n1 refl]
    have "loadPage cfg route1 ?t = Inr (length (promises ?t), ?t') \<and>
              scripts ?t' = scripts ?t \<and> manifestWaiters ?t' = manifestWaiters ?t \<and>
              links ?t' = links ?t \<and>
              (\<forall>ev. promises (emit r ev ?t') ! length (promises s) = outcomeOf ev \<and>
                    promises (emit r ev ?t') ! length (promises ?t) = outcomeOf ev) \<and>
              (\<forall>evs2. promises (run cfg utils evs2 ?t') ! length (promises s) =
                      promises (run cfg utils evs2 ?t') ! length (promises ?t))"
      using j by simp
    then show "\<exists>t'. loadPage cfg route1 ?t = Inr (length (promises ?t), t') \<and>
              scripts t' = scripts ?t \<and> manifestWaiters t' = manifestWaiters ?t \<and>
              links t' = links ?t \<and>
              (\<forall>ev. promises (emit r ev t') ! length (promises s) = outcomeOf ev \<and>
                    promises (emit r ev t') ! length (promises ?t) = outcomeOf ev) \<and>
              (\<forall>evs2. promises (run cfg utils evs2 t') ! length (promises s) =
                      promises (run cfg utils evs2 t') ! length (promises ?t))"
      by blast
  qed
  show ?thesis using lp w sc lk later by blast
qed

subsection \<open>A second injection while the first call waits\<close>

lemma encodeURI_foo: "encodeURI ''/foo'' = ''/foo''" "encodeURI ''/foo/'' = ''/foo/''"
  by (simp_all add: encodeURI_def uriUnescaped_def uriReserved_def)

lemma getAssetPath_foo: "getAssetPath ''/foo'' = ''/foo''" "getAssetPath ''/foo/'' = ''/foo/''"
  by (simp_all add: getAssetPath_def indexRouteTest_def)

lemma normalizeRoute_foo:
  "normalizeRoute ''/foo'' = Inr ''/foo''"
  "normalizeRoute ''/foo/'' = Inr ''/foo''"
  "normalizeRoute ''/foo//'' = Inr ''/foo/''"
  "normalizeRoute ''/foo///'' = Inr ''/foo//''"
  by (simp_all add: normalizeRoute_def stripTrailingSlash_def)

text \<open>
  C1. Concurrent \<^verbatim>\<open>loadPage\<close> calls for one route start at most one script injection. In
  development the loader breaks this: after \<^verbatim>\<open>loadPage('/foo')\<close>, \<^verbatim>\<open>loadPage('/foo//')\<close> and
  \<^verbatim>\<open>loadPage('/foo///')\<close>, the \<^verbatim>\<open>onerror\<close> event of the third script fires the listener of
  the second call, whose \<^verbatim>\<open>route\<close> has become \<^verbatim>\<open>/foo\<close>, and removes the loading mark of
  \<^verbatim>\<open>/foo\<close>. The first promise is still pending, the route has no cache entry and its
  listener is subscribed, and the next \<^verbatim>\<open>loadPage('/foo')\<close> injects the script of \<^verbatim>\<open>/foo\<close>
  again.
\<close>

theorem loadPage_reinjects_while_pending:
  "scripts (run devConfig specUtils [LoadPage ''/foo''] freshLoader) =
     [Script ''/_next/static/pages/foo.js'' (Some ''/foo'') False] \<and>
   promises (run devConfig specUtils
       [LoadPage ''/foo'', LoadPage ''/foo//'', LoadPage ''/foo///'', ScriptError 2] freshLoader) =
     [Pending, Rejected (PageLoadError ''/_next/static/pages/foo/.js''), Pending] \<and>
   pageCache (run devConfig specUtils
       [LoadPage ''/foo'', LoadPage ''/foo//'', LoadPage ''/foo///'', ScriptError 2] freshLoader)
     ''/foo'' = None \<and>
   pageRegisterEvents (run devConfig specUtils
       [LoadPage ''/foo'', LoadPage ''/foo//'', LoadPage ''/foo///'', ScriptError 2] freshLoader)
     ''/foo'' = [Fire 0 ''/foo''] \<and>
   ''/foo'' \<notin> loadingRoutes (run devConfig specUtils
       [LoadPage ''/foo'', LoadPage ''/foo//'', LoadPage ''/foo///'', ScriptError 2] freshLoader) \<and>
   scripts (run devConfig specUtils
       [LoadPage ''/foo'', LoadPage ''/foo//'', LoadPage ''/foo///'', ScriptError 2,
        LoadPage ''/foo''] freshLoader) =
     [Script ''/_next/static/pages/foo.js'' (Some ''/foo'') False,
      Script ''/_next/static/pages/foo.js'' (Some ''/foo'') False,
      Script ''/_next/static/pages/foo/.js'' (Some ''/foo/'') False,
      Script ''/_next/static/pages/foo.js'' (Some ''/foo'') False] \<and>
   promises (run devConfig specUtils
       [LoadPage ''/foo'', LoadPage ''/foo//'', LoadPage ''/foo///'', ScriptError 2,
        LoadPage ''/foo''] freshLoader) =
     [Pending, Rejected (PageLoadError ''/_next/static/pages/foo/.js''), Pending, Pending]"
  by (simp add: run_def step_def loadPage_def normalizeRoute_foo Let_def on_def loadScript_def
        scriptError_def emit_def fire_def off_def settle_def outcomeOf_def truthy_def
        pageLoadError_def encodeURI_foo getAssetPath_foo freshLoader_def newPageLoader_def
        devConfig_def)


section \<open>Dependencies of a route missing from the build manifest\<close>

text \<open>
  C6. In production, where the loader has a build manifest, \<^verbatim>\<open>getDependencies\<close> of a route
  without an entry emits the failure event \<^verbatim>\<open>{ error: pageLoadError(route) }\<close> under that
  route, so that every pending promise subscribed there is rejected with that error, and
  then resolves with the empty list; the cache and the document are not touched.
\<close>

theorem getDependencies_missing_route:
  assumes "production cfg" "buildManifest cfg r = None"
  shows "getDependencies cfg r s = Inr ([], emit r (Failed (PageLoadError r)) s) \<and>
     (\<forall>h \<in> set (pageRegisterEvents s r).
         firePromise h < length (promises s) \<and> promises s ! firePromise h = Pending \<longrightarrow>
         promises (emit r (Failed (PageLoadError r)) s) ! firePromise h = Rejected (PageLoadError r)) \<and>
     pageCache (emit r (Failed (PageLoadError r)) s) = pageCache s \<and>
     scripts (emit r (Failed (PageLoadError r)) s) = scripts s"
  using assms
  by (auto simp: getDependencies_def pageLoadError_def emit_promises emit_frame
        outcomeOf_pageLoadError)

theorem getDependencies_missing_route_witness:
  "production prodConfig \<and> buildManifest prodConfig ''/missing'' = None \<and>
   (\<exists>s1 s'. loadPage prodConfig ''/missing'' freshLoader = Inr (0, s1) \<and>
      promises s1 = [Pending] \<and>
      getDependencies prodConfig ''/missing'' s1 = Inr ([], s') \<and>
      promises s' ! 0 = Rejected (PageLoadError ''/missing''))"
proof -
  let ?s1 = "(on ''/missing'' (Fire 0 ''/missing'')
       (freshLoader\<lparr>promises := [Pending],
          loadingRoutes := insert ''/missing'' (loadingRoutes freshLoader)\<rparr>))
       \<lparr>manifestWaiters := [LoadDeps ''/missing'']\<rparr>"
  have p: "production prodConfig" and m: "buildManifest prodConfig ''/missing'' = None"
    by (simp_all add: prodConfig_def)
  have lp: "loadPage prodConfig ''/missing'' freshLoader = Inr (0, ?s1)"
    by (simp add: loadPage_def normalizeRoute_def stripTrailingSlash_def Let_def
          freshLoader_def newPageLoader_def prodConfig_def)
  have st: "promises ?s1 = [Pending]" "pageRegisterEvents ?s1 ''/missing'' = [Fire 0 ''/missing'']"
    by (simp_all add: on_def freshLoader_def newPageLoader_def)
  show ?thesis
    using getDependencies_missing_route [OF p m, of ?s1] p m lp st by simp
qed


section \<open>Prefetching a page\<close>













section \<open>Data URLs of dynamic routes\<close>

lemma everyParam_missing:
  "(param, g) \<in> set pgs \<Longrightarrow> m param = None \<Longrightarrow> \<not> fst (everyParam m ir pgs)"
proof (induction pgs arbitrary: ir)
  case Nil then show ?case by simp
next
  case (Cons pg pgs)
  obtain ok r where i: "interpolateParam m ir pg = (ok, r)" by (cases "interpolateParam m ir pg")
  show ?case
  proof (cases "pg = (param, g)")
    case True
    then have "\<not> ok" using i Cons.prems(2) by (simp add: interpolateParam_def)
    then show ?thesis using i by simp
  next
    case False
    then have "(param, g) \<in> set pgs" using Cons.prems(1) by simp
    then have "\<not> fst (everyParam m r pgs)" using Cons.IH Cons.prems(2) by blast
    then show ?thesis using i by simp
  qed
qed

lemma interpolateRoute_missing:
  assumes "(param, g) \<in> set (routeGroups utils route)"
    "dynamicMatchesOf utils route query asPathname param = None"
  shows "interpolateRoute utils route query asPathname = []"
proof -
  obtain ok r where e: "everyParam (dynamicMatchesOf utils route query asPathname) route
      (routeGroups utils route) = (ok, r)"
    by (cases "everyParam (dynamicMatchesOf utils route query asPathname) route
      (routeGroups utils route)")
  have "\<not> ok"
    using everyParam_missing
      [of param g "routeGroups utils route" "dynamicMatchesOf utils route query asPathname" route]
      assms e by simp
  then show ?thesis using e by (simp add: interpolateRoute_def)
qed

lemma interpolate_single_example:
  assumes "routeGroups utils ''/posts/[id]'' =
             [(''id'', \<lparr>groupRepeat = False, groupOptional = False\<rparr>)]"
    "routeMatcher utils ''/posts/[id]'' ''/posts/42'' = Some mi"
    "mi ''id'' = Some (Single ''42'')"
  shows "interpolateRoute utils ''/posts/[id]'' query ''/posts/42'' = ''/posts/42''"
  using assms
  by (simp add: interpolateRoute_def dynamicMatchesOf_def interpolateParam_def
        replacedText_def paramText_def asString_def encodeURIComponent_def uriUnescaped_def)

lemma interpolate_repeat_example:
  assumes "routeGroups utils ''/posts/[...slug]'' =
             [(''slug'', \<lparr>groupRepeat = True, groupOptional = False\<rparr>)]"
    "routeMatcher utils ''/posts/[...slug]'' ''/posts/a/b'' = Some ms"
    "ms ''slug'' = Some (Multiple [''a'', ''b''])"
  shows "interpolateRoute utils ''/posts/[...slug]'' query ''/posts/a/b'' = ''/posts/a/b''"
  using assms
  by (simp add: interpolateRoute_def dynamicMatchesOf_def interpolateParam_def
        replacedText_def paramText_def asArray_def encodeURIComponent_def uriUnescaped_def)

lemma spec_groups_id:
  "routeGroups specUtils ''/posts/[id]'' = [(''id'', \<lparr>groupRepeat = False, groupOptional = False\<rparr>)]"
  by (simp add: specUtils_def specRouteGroups_def List.map_filter_def segmentGroup_def endsWith_def)

lemma spec_groups_slug:
  "routeGroups specUtils ''/posts/[...slug]'' = [(''slug'', \<lparr>groupRepeat = True, groupOptional = False\<rparr>)]"
  by (simp add: specUtils_def specRouteGroups_def List.map_filter_def segmentGroup_def endsWith_def)

lemma spec_match_id:
  "routeMatcher specUtils ''/posts/[id]'' ''/posts/42'' = Some (map_of [(''id'', Single ''42'')])"
  by (simp add: specUtils_def specRouteMatcher_def segmentGroup_def endsWith_def)

lemma spec_match_slug:
  "routeMatcher specUtils ''/posts/[...slug]'' ''/posts/a/b'' = Some (map_of [(''slug'', Multiple [''a'', ''b''])])"
  by (simp add: specUtils_def specRouteMatcher_def segmentGroup_def endsWith_def)

lemma spec_match_none:
  "routeMatcher specUtils ''/posts/[id]'' ''/posts'' = None"
  by (simp add: specUtils_def specRouteMatcher_def segmentGroup_def endsWith_def)

lemma specUtils_dynamic:
  "isDynamicRoute specUtils ''/posts/[id]''"
  by (simp add: specUtils_def specIsDynamicRoute_def segmentGroup_def endsWith_def)

lemma replacedText_bracket: "\<exists>t. replacedText param g = CHR ''['' # t"
  by (simp add: replacedText_def Let_def)

lemma replaceFirst_keeps_slash:
  "\<exists>u. replaceFirst (replacedText param g) rep (CHR ''/'' # cs) = CHR ''/'' # u"
proof -
  obtain t where t: "replacedText param g = CHR ''['' # t" using replacedText_bracket by blast
  show ?thesis unfolding t by simp
qed

lemma everyParam_present:
  assumes "\<forall>pg \<in> set pgs. m (fst pg) \<noteq> None"
  shows "everyParam m (CHR ''/'' # cs) pgs =
     (True, foldl (\<lambda>acc pg. replaceFirst (replacedText (fst pg) (snd pg))
                     (paramText (snd pg) (the (m (fst pg)))) acc) (CHR ''/'' # cs) pgs)"
  using assms
proof (induction pgs arbitrary: cs)
  case Nil show ?case by simp
next
  case (Cons pg pgs)
  obtain param g where pg: "pg = (param, g)" by (cases pg)
  obtain v where v: "m param = Some v" using Cons.prems pg by auto
  obtain u where u: "replaceFirst (replacedText param g) (paramText g v) (CHR ''/'' # cs) = CHR ''/'' # u"
    using replaceFirst_keeps_slash by blast
  have ip: "interpolateParam m (CHR ''/'' # cs) pg = (True, CHR ''/'' # u)"
    using pg v u by (simp add: interpolateParam_def del: replaceFirst.simps)
  have "everyParam m (CHR ''/'' # u) pgs =
     (True, foldl (\<lambda>acc pg. replaceFirst (replacedText (fst pg) (snd pg))
                     (paramText (snd pg) (the (m (fst pg)))) acc) (CHR ''/'' # u) pgs)"
    using Cons.IH Cons.prems by simp
  then show ?case using ip pg v u by (simp del: replaceFirst.simps)
qed


lemma foldl_subst_slash:
  "\<exists>u. foldl (\<lambda>acc pg. replaceFirst (replacedText (fst pg) (snd pg)) (f pg) acc)
          (CHR ''/'' # cs) pgs = CHR ''/'' # u"
proof (induction pgs arbitrary: cs)
  case Nil show ?case by simp
next
  case (Cons pg pgs)
  obtain u where u: "replaceFirst (replacedText (fst pg) (snd pg)) (f pg) (CHR ''/'' # cs) = CHR ''/'' # u"
    using replaceFirst_keeps_slash by blast
  show ?case using Cons.IH [of u] u by (simp del: replaceFirst.simps)
qed

lemma normalizeRoute_slash_result:
  assumes "normalizeRoute h = Inr route"
  shows "\<exists>cs. route = CHR ''/'' # cs"
proof -
  obtain r' where "normalizeRoute route = Inr r'" using normalizeRoute_again [OF assms] by blast
  then have "prefix ''/'' route" using normalizeRoute_Inr_iff by blast
  then show ?thesis by (cases route) auto
qed

lemma getDataHref_static:
  assumes "normalizeRoute hrefPathname = Inr route" "\<not> isDynamicRoute utils route"
  shows "getDataHref cfg utils hrefPathname query asPathname =
        Inr (assetPrefix cfg @ ''/_next/data/'' @ buildId cfg @ getAssetPath route @ ''.json'')"
  using assms by (simp add: getDataHref_def getHrefForSlug_def)

lemma getDataHref_present:
  assumes n: "normalizeRoute hrefPathname = Inr route" and d: "isDynamicRoute utils route"
    and dm: "dm = (case routeMatcher utils route asPathname of Some m \<Rightarrow> m | None \<Rightarrow> query)"
    and all: "\<forall>pg \<in> set (routeGroups utils route). dm (fst pg) \<noteq> None"
    and X: "X = foldl (\<lambda>acc pg. replaceFirst (replacedText (fst pg) (snd pg))
                 (if groupRepeat (snd pg)
                  then joinWith ''/'' (map encodeURIComponent (asArray (the (dm (fst pg)))))
                  else encodeURIComponent (asString (the (dm (fst pg))))) acc)
              route (routeGroups utils route)"
  shows "interpolateRoute utils route query asPathname = X \<and> X \<noteq> [] \<and>
     getDataHref cfg utils hrefPathname query asPathname =
       Inr (assetPrefix cfg @ ''/_next/data/'' @ buildId cfg @ getAssetPath X @ ''.json'')"
proof -
  obtain cs where r: "route = CHR ''/'' # cs" using normalizeRoute_slash_result [OF n] by blast
  have dm': "dynamicMatchesOf utils route query asPathname = dm"
    by (simp add: dynamicMatchesOf_def dm)
  have pt: "(\<lambda>acc pg. replaceFirst (replacedText (fst pg) (snd pg))
                 (paramText (snd pg) (the (dm (fst pg)))) acc) =
        (\<lambda>acc pg. replaceFirst (replacedText (fst pg) (snd pg))
                 (if groupRepeat (snd pg)
                  then joinWith ''/'' (map encodeURIComponent (asArray (the (dm (fst pg)))))
                  else encodeURIComponent (asString (the (dm (fst pg))))) acc)"
    by (simp add: paramText_def)
  have e: "everyParam dm route (routeGroups utils route) = (True, X)"
    using everyParam_present [OF all, of cs] by (simp add: X pt r [symmetric])
  have i: "interpolateRoute utils route query asPathname = X"
    using e by (simp add: interpolateRoute_def dm')
  obtain u where "X = CHR ''/'' # u"
    using foldl_subst_slash
      [of "\<lambda>pg. if groupRepeat (snd pg)
                  then joinWith ''/'' (map encodeURIComponent (asArray (the (dm (fst pg)))))
                  else encodeURIComponent (asString (the (dm (fst pg))))" cs
          "routeGroups utils route"]
    unfolding X r by blast
  then have ne: "X \<noteq> []" by simp
  show ?thesis using i ne n d by (simp add: getDataHref_def getHrefForSlug_def)
qed

lemma getDataHref_absent:
  assumes n: "normalizeRoute hrefPathname = Inr route" and d: "isDynamicRoute utils route"
    and dm: "dm = (case routeMatcher utils route asPathname of Some m \<Rightarrow> m | None \<Rightarrow> query)"
    and ex: "\<exists>pg \<in> set (routeGroups utils route). dm (fst pg) = None"
  shows "interpolateRoute utils route query asPathname = [] \<and>
     getDataHref cfg utils hrefPathname query asPathname = Inr [] \<and>
     prefetchData cfg utils hrefPathname query asPathname s = Inr s"
proof -
  have dm': "dynamicMatchesOf utils route query asPathname = dm"
    by (simp add: dynamicMatchesOf_def dm)
  obtain param g where pg: "(param, g) \<in> set (routeGroups utils route)" "dm param = None"
    using ex by force
  have i: "interpolateRoute utils route query asPathname = []"
    using interpolateRoute_missing [OF pg(1), of query asPathname] pg(2) dm' by simp
  show ?thesis using i n d by (simp add: getDataHref_def prefetchData_def)
qed

lemma prefetchData_injects:
  assumes "normalizeRoute hrefPathname = Inr route" "route \<in> ssgManifest cfg"
    "getDataHref cfg utils hrefPathname query asPathname = Inr d" "d \<noteq> []"
    "\<not> list_ex (\<lambda>l. linkRel l = relPrefetch cfg \<and> attrStartsWith d (linkHref l)) (links s)"
  shows "prefetchData cfg utils hrefPathname query asPathname s =
     Inr (s\<lparr>links := links s @ [Link d (relPrefetch cfg) (Some ''fetch'')]\<rparr>)"
  using assms by (simp add: prefetchData_def appendLink_def)

lemma normalizeRoute_posts_id: "normalizeRoute ''/posts/[id]'' = Inr ''/posts/[id]''"
  by (simp add: normalizeRoute_def stripTrailingSlash_def)

lemma normalizeRoute_posts_slug: "normalizeRoute ''/posts/[...slug]'' = Inr ''/posts/[...slug]''"
  by (simp add: normalizeRoute_def stripTrailingSlash_def)

lemma getAssetPath_posts_42: "getAssetPath ''/posts/42'' = ''/posts/42''"
  by (simp add: getAssetPath_def indexRouteTest_def)

lemma getAssetPath_posts_ab: "getAssetPath ''/posts/a/b'' = ''/posts/a/b''"
  by (simp add: getAssetPath_def indexRouteTest_def)

lemma dataHref_single_example:
  assumes "isDynamicRoute utils ''/posts/[id]''"
    "routeGroups utils ''/posts/[id]'' =
             [(''id'', \<lparr>groupRepeat = False, groupOptional = False\<rparr>)]"
    "routeMatcher utils ''/posts/[id]'' ''/posts/42'' = Some mi"
    "mi ''id'' = Some (Single ''42'')"
  shows "getDataHref cfg utils ''/posts/[id]'' query ''/posts/42'' =
     Inr (assetPrefix cfg @ ''/_next/data/'' @ buildId cfg @ ''/posts/42.json'')"
  using assms interpolate_single_example [OF assms(2,3,4), of query]
  by (simp add: getDataHref_def normalizeRoute_posts_id getHrefForSlug_def getAssetPath_posts_42)

lemma dataHref_query_example:
  assumes "isDynamicRoute utils ''/posts/[id]''"
    "routeGroups utils ''/posts/[id]'' =
             [(''id'', \<lparr>groupRepeat = False, groupOptional = False\<rparr>)]"
    "routeMatcher utils ''/posts/[id]'' asPathname = None"
    "query ''id'' = Some (Single ''42'')"
  shows "getDataHref cfg utils ''/posts/[id]'' query asPathname =
     Inr (assetPrefix cfg @ ''/_next/data/'' @ buildId cfg @ ''/posts/42.json'')"
  using assms
  by (simp add: getDataHref_def normalizeRoute_posts_id getHrefForSlug_def getAssetPath_posts_42
        interpolateRoute_def dynamicMatchesOf_def interpolateParam_def
        replacedText_def paramText_def asString_def encodeURIComponent_def uriUnescaped_def)

lemma dataHref_repeat_example:
  assumes "isDynamicRoute utils ''/posts/[...slug]''"
    "routeGroups utils ''/posts/[...slug]'' =
             [(''slug'', \<lparr>groupRepeat = True, groupOptional = False\<rparr>)]"
    "routeMatcher utils ''/posts/[...slug]'' ''/posts/a/b'' = Some ms"
    "ms ''slug'' = Some (Multiple [''a'', ''b''])"
  shows "getDataHref cfg utils ''/posts/[...slug]'' query ''/posts/a/b'' =
     Inr (assetPrefix cfg @ ''/_next/data/'' @ buildId cfg @ ''/posts/a/b.json'')"
  using assms interpolate_repeat_example [OF assms(2,3,4), of query]
  by (simp add: getDataHref_def normalizeRoute_posts_slug getHrefForSlug_def getAssetPath_posts_ab)

lemma interpolate_encoded_example:
  assumes "routeGroups utils ''/posts/[...slug]'' =
             [(''slug'', \<lparr>groupRepeat = True, groupOptional = False\<rparr>)]"
    "routeMatcher utils ''/posts/[...slug]'' asPathname = Some ms"
    "ms ''slug'' = Some (Multiple [''a b'', ''c/d''])"
  shows "interpolateRoute utils ''/posts/[...slug]'' query asPathname = ''/posts/a%20b/c%2Fd''"
  using assms
  by (simp add: interpolateRoute_def dynamicMatchesOf_def interpolateParam_def
        replacedText_def paramText_def asArray_def encodeURIComponent_def uriUnescaped_def
        utf8Escape_def percentByte_def hexDigit_def Let_def)

lemma specUtils_dynamic_slug:
  "isDynamicRoute specUtils ''/posts/[...slug]''"
  by (simp add: specUtils_def specIsDynamicRoute_def segmentGroup_def endsWith_def)

text \<open>
  C7. For a dynamic route \<^verbatim>\<open>getDataHref\<close> takes the parameter values from the matcher when
  the pattern matches the concrete path and from the parsed query otherwise. With a
  value for every group it returns the data URL of the route in which each group's text
  is replaced in turn, a repeated group by its values, each URI-encoded, joined with
  slashes. With a group that has no value the interpolated route is empty,
  \<^verbatim>\<open>getDataHref\<close> returns the empty string and \<^verbatim>\<open>prefetchData\<close> adds no link, where for a
  nonempty URL it adds one. Whenever the utilities report the group \<^verbatim>\<open>id\<close> of
  \<^verbatim>\<open>/posts/[id]\<close> with the value \<^verbatim>\<open>42\<close> from \<^verbatim>\<open>/posts/42\<close>, the route interpolates to
  \<^verbatim>\<open>/posts/42\<close>, and with the repeated group \<^verbatim>\<open>slug\<close> of \<^verbatim>\<open>/posts/[...slug]\<close> and the
  values \<^verbatim>\<open>a\<close>, \<^verbatim>\<open>b\<close> from \<^verbatim>\<open>/posts/a/b\<close>, to \<^verbatim>\<open>/posts/a/b\<close>; the utilities as the
  specification describes them do so.
\<close>

theorem getDataHref_interpolation:
  "(normalizeRoute hrefPathname = Inr route \<longrightarrow> \<not> isDynamicRoute utils route \<longrightarrow>
      getDataHref cfg utils hrefPathname query asPathname =
        Inr (assetPrefix cfg @ ''/_next/data/'' @ buildId cfg @ getAssetPath route @ ''.json'')) \<and>
   (normalizeRoute hrefPathname = Inr route \<longrightarrow> isDynamicRoute utils route \<longrightarrow>
    (let dm = (case routeMatcher utils route asPathname of Some m \<Rightarrow> m | None \<Rightarrow> query);
         X = foldl (\<lambda>acc pg. replaceFirst (replacedText (fst pg) (snd pg))
                 (if groupRepeat (snd pg)
                  then joinWith ''/'' (map encodeURIComponent (asArray (the (dm (fst pg)))))
                  else encodeURIComponent (asString (the (dm (fst pg))))) acc)
              route (routeGroups utils route)
     in
      ((\<forall>pg \<in> set (routeGroups utils route). dm (fst pg) \<noteq> None) \<longrightarrow>
         interpolateRoute utils route query asPathname = X \<and> X \<noteq> [] \<and>
         getDataHref cfg utils hrefPathname query asPathname =
           Inr (assetPrefix cfg @ ''/_next/data/'' @ buildId cfg @ getAssetPath X @ ''.json'')) \<and>
      ((\<exists>pg \<in> set (routeGroups utils route). dm (fst pg) = None) \<longrightarrow>
         interpolateRoute utils route query asPathname = [] \<and>
         getDataHref cfg utils hrefPathname query asPathname = Inr [] \<and>
         prefetchData cfg utils hrefPathname query asPathname s = Inr s))) \<and>
   (normalizeRoute hrefPathname = Inr route \<longrightarrow> route \<in> ssgManifest cfg \<longrightarrow>
    getDataHref cfg utils hrefPathname query asPathname = Inr d \<longrightarrow> d \<noteq> [] \<longrightarrow>
    \<not> list_ex (\<lambda>l. linkRel l = relPrefetch cfg \<and> attrStartsWith d (linkHref l)) (links s) \<longrightarrow>
      prefetchData cfg utils hrefPathname query asPathname s =
        Inr (s\<lparr>links := links s @ [Link d (relPrefetch cfg) (Some ''fetch'')]\<rparr>)) \<and>
   (isDynamicRoute utils ''/posts/[id]'' \<longrightarrow>
    routeGroups utils ''/posts/[id]'' =
        [(''id'', \<lparr>groupRepeat = False, groupOptional = False\<rparr>)] \<longrightarrow>
      (routeMatcher utils ''/posts/[id]'' ''/posts/42'' = Some mi \<longrightarrow>
       mi ''id'' = Some (Single ''42'') \<longrightarrow>
         interpolateRoute utils ''/posts/[id]'' query ''/posts/42'' = ''/posts/42'' \<and>
         getDataHref cfg utils ''/posts/[id]'' query ''/posts/42'' =
           Inr (assetPrefix cfg @ ''/_next/data/'' @ buildId cfg @ ''/posts/42.json'')) \<and>
      (routeMatcher utils ''/posts/[id]'' asPathname = None \<longrightarrow>
       query ''id'' = Some (Single ''42'') \<longrightarrow>
         getDataHref cfg utils ''/posts/[id]'' query asPathname =
           Inr (assetPrefix cfg @ ''/_next/data/'' @ buildId cfg @ ''/posts/42.json''))) \<and>
   (isDynamicRoute utils ''/posts/[...slug]'' \<longrightarrow>
    routeGroups utils ''/posts/[...slug]'' =
        [(''slug'', \<lparr>groupRepeat = True, groupOptional = False\<rparr>)] \<longrightarrow>
      (routeMatcher utils ''/posts/[...slug]'' ''/posts/a/b'' = Some ms \<longrightarrow>
       ms ''slug'' = Some (Multiple [''a'', ''b'']) \<longrightarrow>
         interpolateRoute utils ''/posts/[...slug]'' query ''/posts/a/b'' = ''/posts/a/b'' \<and>
         getDataHref cfg utils ''/posts/[...slug]'' query ''/posts/a/b'' =
           Inr (assetPrefix cfg @ ''/_next/data/'' @ buildId cfg @ ''/posts/a/b.json'')) \<and>
      (routeMatcher utils ''/posts/[...slug]'' asPathname = Some me \<longrightarrow>
       me ''slug'' = Some (Multiple [''a b'', ''c/d'']) \<longrightarrow>
         interpolateRoute utils ''/posts/[...slug]'' query asPathname = ''/posts/a%20b/c%2Fd''))"
proof -
  have a: "normalizeRoute hrefPathname = Inr route \<longrightarrow> \<not> isDynamicRoute utils route \<longrightarrow>
      getDataHref cfg utils hrefPathname query asPathname =
        Inr (assetPrefix cfg @ ''/_next/data/'' @ buildId cfg @ getAssetPath route @ ''.json'')"
    using getDataHref_static by blast
  have b: "normalizeRoute hrefPathname = Inr route \<longrightarrow> isDynamicRoute utils route \<longrightarrow>
    (let dm = (case routeMatcher utils route asPathname of Some m \<Rightarrow> m | None \<Rightarrow> query);
         X = foldl (\<lambda>acc pg. replaceFirst (replacedText (fst pg) (snd pg))
                 (if groupRepeat (snd pg)
                  then joinWith ''/'' (map encodeURIComponent (asArray (the (dm (fst pg)))))
                  else encodeURIComponent (asString (the (dm (fst pg))))) acc)
              route (routeGroups utils route)
     in
      ((\<forall>pg \<in> set (routeGroups utils route). dm (fst pg) \<noteq> None) \<longrightarrow>
         interpolateRoute utils route query asPathname = X \<and> X \<noteq> [] \<and>
         getDataHref cfg utils hrefPathname query asPathname =
           Inr (assetPrefix cfg @ ''/_next/data/'' @ buildId cfg @ getAssetPath X @ ''.json'')) \<and>
      ((\<exists>pg \<in> set (routeGroups utils route). dm (fst pg) = None) \<longrightarrow>
         interpolateRoute utils route query asPathname = [] \<and>
         getDataHref cfg utils hrefPathname query asPathname = Inr [] \<and>
         prefetchData cfg utils hrefPathname query asPathname s = Inr s))"
    unfolding Let_def
  proof (intro impI conjI)
    assume n: "normalizeRoute hrefPathname = Inr route" and d: "isDynamicRoute utils route"
    let ?dm = "case routeMatcher utils route asPathname of Some m \<Rightarrow> m | None \<Rightarrow> query"
    let ?X = "foldl (\<lambda>acc pg. replaceFirst (replacedText (fst pg) (snd pg))
                 (if groupRepeat (snd pg)
                  then joinWith ''/'' (map encodeURIComponent (asArray (the (?dm (fst pg)))))
                  else encodeURIComponent (asString (the (?dm (fst pg))))) acc)
              route (routeGroups utils route)"
    {
      assume all: "\<forall>pg \<in> set (routeGroups utils route). ?dm (fst pg) \<noteq> None"
      note p = getDataHref_present [OF n d refl all refl, of cfg]
      from p show "interpolateRoute utils route query asPathname = ?X" by blast
      from p show "?X \<noteq> []" by blast
      from p show "getDataHref cfg utils hrefPathname query asPathname =
           Inr (assetPrefix cfg @ ''/_next/data/'' @ buildId cfg @ getAssetPath ?X @ ''.json'')"
        by blast
    }
    {
      assume ex: "\<exists>pg \<in> set (routeGroups utils route). ?dm (fst pg) = None"
      note q = getDataHref_absent [OF n d refl ex, of cfg s]
      from q show "interpolateRoute utils route query asPathname = []" by blast
      from q show "getDataHref cfg utils hrefPathname query asPathname = Inr []" by blast
      from q show "prefetchData cfg utils hrefPathname query asPathname s = Inr s" by blast
    }
  qed
  have c: "normalizeRoute hrefPathname = Inr route \<longrightarrow> route \<in> ssgManifest cfg \<longrightarrow>
    getDataHref cfg utils hrefPathname query asPathname = Inr d \<longrightarrow> d \<noteq> [] \<longrightarrow>
    \<not> list_ex (\<lambda>l. linkRel l = relPrefetch cfg \<and> attrStartsWith d (linkHref l)) (links s) \<longrightarrow>
      prefetchData cfg utils hrefPathname query asPathname s =
        Inr (s\<lparr>links := links s @ [Link d (relPrefetch cfg) (Some ''fetch'')]\<rparr>)"
    using prefetchData_injects by blast
  have e: "isDynamicRoute utils ''/posts/[id]'' \<longrightarrow>
    routeGroups utils ''/posts/[id]'' =
        [(''id'', \<lparr>groupRepeat = False, groupOptional = False\<rparr>)] \<longrightarrow>
      (routeMatcher utils ''/posts/[id]'' ''/posts/42'' = Some mi \<longrightarrow>
       mi ''id'' = Some (Single ''42'') \<longrightarrow>
         interpolateRoute utils ''/posts/[id]'' query ''/posts/42'' = ''/posts/42'' \<and>
         getDataHref cfg utils ''/posts/[id]'' query ''/posts/42'' =
           Inr (assetPrefix cfg @ ''/_next/data/'' @ buildId cfg @ ''/posts/42.json'')) \<and>
      (routeMatcher utils ''/posts/[id]'' asPathname = None \<longrightarrow>
       query ''id'' = Some (Single ''42'') \<longrightarrow>
         getDataHref cfg utils ''/posts/[id]'' query asPathname =
           Inr (assetPrefix cfg @ ''/_next/data/'' @ buildId cfg @ ''/posts/42.json''))"
    using interpolate_single_example dataHref_single_example dataHref_query_example by blast
  have f: "isDynamicRoute utils ''/posts/[...slug]'' \<longrightarrow>
    routeGroups utils ''/posts/[...slug]'' =
        [(''slug'', \<lparr>groupRepeat = True, groupOptional = False\<rparr>)] \<longrightarrow>
      (routeMatcher utils ''/posts/[...slug]'' ''/posts/a/b'' = Some ms \<longrightarrow>
       ms ''slug'' = Some (Multiple [''a'', ''b'']) \<longrightarrow>
         interpolateRoute utils ''/posts/[...slug]'' query ''/posts/a/b'' = ''/posts/a/b'' \<and>
         getDataHref cfg utils ''/posts/[...slug]'' query ''/posts/a/b'' =
           Inr (assetPrefix cfg @ ''/_next/data/'' @ buildId cfg @ ''/posts/a/b.json'')) \<and>
      (routeMatcher utils ''/posts/[...slug]'' asPathname = Some me \<longrightarrow>
       me ''slug'' = Some (Multiple [''a b'', ''c/d'']) \<longrightarrow>
         interpolateRoute utils ''/posts/[...slug]'' query asPathname = ''/posts/a%20b/c%2Fd'')"
    using interpolate_repeat_example dataHref_repeat_example interpolate_encoded_example by blast
  show ?thesis using a b c e f by blast
qed

theorem getDataHref_interpolation_witness:
  "getDataHref devConfig specUtils ''/posts/[id]'' Map.empty ''/posts'' = Inr [] \<and>
   prefetchData devConfig specUtils ''/posts/[id]'' Map.empty ''/posts'' freshLoader =
     Inr freshLoader \<and>
   getDataHref devConfig specUtils ''/posts/[id]'' Map.empty ''/posts/42'' =
     Inr ''/_next/data/build1/posts/42.json'' \<and>
   getDataHref devConfig specUtils ''/posts/[...slug]'' Map.empty ''/posts/a/b'' =
     Inr ''/_next/data/build1/posts/a/b.json''"
proof -
  have n: "normalizeRoute ''/posts/[id]'' = Inr ''/posts/[id]''"
    by (simp add: normalizeRoute_def stripTrailingSlash_def)
  have cf: "assetPrefix devConfig = []" "buildId devConfig = ''build1''"
    by (simp_all add: devConfig_def)
  show ?thesis
    using getDataHref_interpolation
      [where utils = specUtils and route = "''/posts/[id]''" and asPathname = "''/posts''"
         and query = Map.empty and cfg = devConfig and s = freshLoader
         and hrefPathname = "''/posts/[id]''" and d = "[]"
         and mi = "map_of [(''id'', Single ''42'')]"
         and ms = "map_of [(''slug'', Multiple [''a'', ''b''])]"
         and me = Map.empty]
      n cf specUtils_dynamic specUtils_dynamic_slug spec_groups_id spec_groups_slug
      spec_match_id spec_match_slug spec_match_none
    by (simp add: Let_def)
qed

end
